theory Spec2Isabelle
  imports Complex_Main "HOL-Library.Word" "HOL-Library.Multiset"
begin

section \<open>Errors\<close>

text \<open>
  Every \<^verbatim>\<open>raise\<close> of the modelled functions, and the exceptions of the library calls
  they make, as values. The source itself raises \<^verbatim>\<open>ValueError\<close> only; the constructors
  tell the places apart. \<open>OverflowError\<close> is Python's exception of that name (an int too
  large for a float, \<^verbatim>\<open>round\<close> of an infinity); \<open>NanToInteger\<close> and
  \<open>MathDomainError\<close> are the \<^verbatim>\<open>ValueError\<close>s of \<^verbatim>\<open>round(nan)\<close> and of
  \<^verbatim>\<open>math.cos\<close> of an infinity.
\<close>

datatype error =
    NotPositive string
  | TileTooLarge
  | EmptyRange
  | BadCropBox
  | OverflowError
  | NanToInteger
  | MathDomainError

section \<open>The pseudo-random generator\<close>

text \<open>
  A \<^verbatim>\<open>random.Random\<close> object (and the hidden module-level instance behind
  \<^verbatim>\<open>random.randint\<close>) is modelled by the sequence of raw values it is going to
  produce; a sequence that ends goes on with zeros. Each primitive draw consumes one raw
  value. Seeding a generator fixes the sequence, so two generators built from one seed are
  the same value of this type.
\<close>

type_synonym rng = "nat list"

definition next_raw :: "rng \<Rightarrow> nat \<times> rng" where
  "next_raw g = (case g of [] \<Rightarrow> (0, []) | r # g' \<Rightarrow> (r, g'))"

text \<open>\<^verbatim>\<open>Random._randbelow(n)\<close>: an integer in \<^verbatim>\<open>range(n)\<close>.\<close>

definition randbelow :: "nat \<Rightarrow> rng \<Rightarrow> nat \<times> rng" where
  "randbelow n g = (case next_raw g of (r, g') \<Rightarrow> (r mod n, g'))"

text \<open>
  \<^verbatim>\<open>Random.randint(a, b)\<close> is \<^verbatim>\<open>randrange(a, b + 1)\<close>: \<^verbatim>\<open>a + _randbelow(b - a + 1)\<close>,
  and a \<^verbatim>\<open>ValueError\<close> for an empty range.
\<close>

definition randint :: "int \<Rightarrow> int \<Rightarrow> rng \<Rightarrow> error + (int \<times> rng)" where
  "randint a b g =
     (if b < a then Inl EmptyRange
      else case randbelow (nat (b - a + 1)) g of (r, g') \<Rightarrow> Inr (a + int r, g'))"

section \<open>Random tile sampler (tiler\_toolkit.py)\<close>

definition ensure_positive :: "int \<Rightarrow> string \<Rightarrow> error + int" where
  "ensure_positive v name = (if v \<le> 0 then Inl (NotPositive name) else Inr v)"

text \<open>
  \<^verbatim>\<open>choose_random_tile_position(img_w, img_h, tile_w, tile_h)\<close> of the toolkit draws
  from the module-level generator (\<^verbatim>\<open>random.randint\<close>); that ambient state is the first
  argument here and is returned advanced.
\<close>

definition choose_random_tile_position ::
  "rng \<Rightarrow> int \<Rightarrow> int \<Rightarrow> int \<Rightarrow> int \<Rightarrow> error + ((int \<times> int \<times> int \<times> int) \<times> rng)" where
  "choose_random_tile_position ambient img_w img_h tile_w tile_h =
     (case ensure_positive tile_w ''tile_w'' of Inl e \<Rightarrow> Inl e | Inr _ \<Rightarrow>
      case ensure_positive tile_h ''tile_h'' of Inl e \<Rightarrow> Inl e | Inr _ \<Rightarrow>
      if tile_w > img_w \<or> tile_h > img_h then Inl TileTooLarge
      else
        let max_left = img_w - tile_w;
            max_top = img_h - tile_h
        in case randint 0 max_left ambient of Inl e \<Rightarrow> Inl e | Inr (left, ambient1) \<Rightarrow>
           case randint 0 max_top ambient1 of Inl e \<Rightarrow> Inl e | Inr (top', ambient2) \<Rightarrow>
           let center_x = left + tile_w div 2;
               center_y = top' + tile_h div 2
           in Inr ((left, top', center_x, center_y), ambient2))"

section \<open>Shuffling and enumeration\<close>

text \<open>
  \<^verbatim>\<open>Random.shuffle(x)\<close>: for \<^verbatim>\<open>i\<close> from \<^verbatim>\<open>len(x) - 1\<close> down to \<^verbatim>\<open>1\<close>, draw
  \<^verbatim>\<open>j = _randbelow(i + 1)\<close> and swap \<^verbatim>\<open>x[i], x[j] = x[j], x[i]\<close>.
  \<open>shuffle_loop i\<close> runs the iterations \<open>i, i - 1, \<dots>, 1\<close>.
\<close>

fun shuffle_loop :: "nat \<Rightarrow> 'a list \<Rightarrow> rng \<Rightarrow> 'a list \<times> rng" where
  "shuffle_loop 0 x g = (x, g)"
| "shuffle_loop (Suc i) x g =
     (case randbelow (Suc i + 1) g of
        (j, g') \<Rightarrow> shuffle_loop i (x[Suc i := x ! j, j := x ! Suc i]) g')"

definition shuffle :: "'a list \<Rightarrow> rng \<Rightarrow> 'a list \<times> rng" where
  "shuffle x g = shuffle_loop (length x - 1) x g"

text \<open>
  \<^verbatim>\<open>itertools.permutations(iterable)\<close>: all orderings of the input, in lexicographic
  order of the positions chosen. \<open>permutations_len k xs\<close> enumerates the orderings of a
  list of length \<open>k\<close>: each position in turn goes first, followed by every ordering of
  the rest.
\<close>

fun permutations_len :: "nat \<Rightarrow> 'a list \<Rightarrow> 'a list list" where
  "permutations_len 0 xs = [[]]"
| "permutations_len (Suc k) xs =
     concat (map (\<lambda>i. map ((#) (xs ! i)) (permutations_len k (take i xs @ drop (Suc i) xs)))
                 [0..<length xs])"

definition permutations :: "'a list \<Rightarrow> 'a list list" where
  "permutations xs = permutations_len (length xs) xs"

definition factorial :: "nat \<Rightarrow> nat" where
  "factorial n = fact n"

section \<open>Permutation allocator (legacy/tiler-test-05.py)\<close>

text \<open>
  \<^verbatim>\<open>build_unique_orders(tiles_n, frames, rng)\<close>. The tile and frame counts are naturals:
  \<^verbatim>\<open>main\<close> exits on \<^verbatim>\<open>tiles <= 0\<close> or \<^verbatim>\<open>frames <= 0\<close> before anything is built.
  \<open>collect_unique\<close> is the fallback \<^verbatim>\<open>while\<close> loop, with the loop variables
  \<^verbatim>\<open>attempts\<close>, \<^verbatim>\<open>seen\<close> and \<^verbatim>\<open>orders\<close> as arguments.
\<close>

definition max_enum :: nat where
  "max_enum = 200000"

function collect_unique ::
  "nat \<Rightarrow> nat \<Rightarrow> nat \<Rightarrow> nat \<Rightarrow> nat list set \<Rightarrow> nat list list \<Rightarrow> rng
     \<Rightarrow> nat list list \<times> rng" where
  "collect_unique tiles_n frames max_attempts attempts seen orders g =
     (if length orders < frames \<and> attempts < max_attempts then
        (case shuffle [0..<tiles_n] g of
           (candidate, g') \<Rightarrow>
             if candidate \<in> seen
             then collect_unique tiles_n frames max_attempts (attempts + 1) seen orders g'
             else collect_unique tiles_n frames max_attempts (attempts + 1)
                    (insert candidate seen) (orders @ [candidate]) g')
      else (orders, g))"
  by pat_completeness auto
termination
  by (relation "measure (\<lambda>(n, f, m, a, s, os, g). m - a)") auto

definition build_unique_orders :: "nat \<Rightarrow> nat \<Rightarrow> rng \<Rightarrow> nat list list \<times> rng" where
  "build_unique_orders tiles_n frames g =
     (let total_perms = factorial tiles_n in
      if frames \<le> total_perms \<and> total_perms \<le> max_enum then
        (case shuffle (permutations [0..<tiles_n]) g of
           (all_perms, g') \<Rightarrow> (take frames all_perms, g'))
      else collect_unique tiles_n frames (max 1000 (frames * 50)) 0 {} [] g)"

text \<open>
  The unique-permutations branch of \<^verbatim>\<open>main\<close>: the orders of \<^verbatim>\<open>build_unique_orders\<close>,
  and while there are fewer than \<^verbatim>\<open>frames\<close> of them, one more shuffle of
  \<^verbatim>\<open>range(len(tiles))\<close> appended.
\<close>

function fill_orders :: "nat \<Rightarrow> nat \<Rightarrow> nat list list \<Rightarrow> rng \<Rightarrow> nat list list \<times> rng" where
  "fill_orders tiles_n frames orders g =
     (if length orders < frames then
        (case shuffle [0..<tiles_n] g of
           (cand, g') \<Rightarrow> fill_orders tiles_n frames (orders @ [cand]) g')
      else (orders, g))"
  by pat_completeness auto
termination
  by (relation "measure (\<lambda>(n, f, os, g). f - length os)") auto

definition allocate :: "nat \<Rightarrow> nat \<Rightarrow> rng \<Rightarrow> nat list list \<times> rng" where
  "allocate tiles_n frames g =
     (case build_unique_orders tiles_n frames g of
        (orders, g1) \<Rightarrow>
          if length orders < frames then fill_orders tiles_n frames orders g1
          else (orders, g1))"

declare collect_unique.simps [simp del] fill_orders.simps [simp del]

text \<open>A layer order for \<open>n\<close> tiles: every index of \<open>range(n)\<close> exactly once.\<close>

definition is_order :: "nat \<Rightarrow> nat list \<Rightarrow> bool" where
  "is_order n p = (distinct p \<and> set p = {0..<n} \<and> length p = n)"

section \<open>Floats\<close>

text \<open>
  A Python float is an IEEE 754 double: a finite value (given here by the real number it
  denotes), an infinity or a NaN. The sign of a zero is not modelled. An arithmetic
  operation on finite values computes the exact result and rounds it to the nearest
  double, ties to the even significand; a result beyond the largest double is an
  infinity.
\<close>

datatype pyfloat = Finite real | PosInf | NegInf | NaN

text \<open>Rounding to the nearest integer, ties to the even one.\<close>

definition round_half_even :: "real \<Rightarrow> int" where
  "round_half_even x =
     (let f = \<lfloor>x\<rfloor>; d = x - of_int f
      in if d < 1 / 2 then f
         else if 1 / 2 < d then f + 1
         else if even f then f else f + 1)"

text \<open>The exponent \<open>e\<close> of the binade of a positive number \<open>a\<close>: \<open>2\<^sup>e \<le> a < 2\<^sup>e\<^sup>+\<^sup>1\<close>.\<close>

definition ilog2 :: "real \<Rightarrow> int" where
  "ilog2 a = \<lfloor>log 2 a\<rfloor>"

text \<open>
  The double nearest to a real number. Doubles are spaced \<open>2\<^sup>e\<^sup>-\<^sup>5\<^sup>2\<close> apart in the binade
  of exponent \<open>e\<close>, and as in the binade of exponent \<open>- 1022\<close> below it; the rounded
  magnitude is an infinity from \<open>2\<^sup>1\<^sup>0\<^sup>2\<^sup>4\<close> on.
\<close>

definition round_to_double :: "real \<Rightarrow> pyfloat" where
  "round_to_double x =
     (if x = 0 then Finite 0
      else let a = \<bar>x\<bar>;
               e = max (ilog2 a) (- 1022);
               q = 2 powi (e - 52);
               r = of_int (round_half_even (a / q)) * q
           in if 2 ^ 1024 \<le> r then (if 0 < x then PosInf else NegInf)
              else Finite (sgn x * r))"

fun fneg :: "pyfloat \<Rightarrow> pyfloat" where
  "fneg (Finite x) = Finite (- x)"
| "fneg PosInf = NegInf"
| "fneg NegInf = PosInf"
| "fneg NaN = NaN"

fun fadd :: "pyfloat \<Rightarrow> pyfloat \<Rightarrow> pyfloat" where
  "fadd (Finite x) (Finite y) = round_to_double (x + y)"
| "fadd NaN b = NaN"
| "fadd a NaN = NaN"
| "fadd PosInf NegInf = NaN"
| "fadd NegInf PosInf = NaN"
| "fadd PosInf b = PosInf"
| "fadd a PosInf = PosInf"
| "fadd NegInf b = NegInf"
| "fadd a NegInf = NegInf"

definition fsub :: "pyfloat \<Rightarrow> pyfloat \<Rightarrow> pyfloat" where
  "fsub a b = fadd a (fneg b)"

text \<open>The product of an infinity and a finite value of sign \<open>s\<close>.\<close>

definition inf_of_sign :: "real \<Rightarrow> pyfloat" where
  "inf_of_sign s = (if s = 0 then NaN else if 0 < s then PosInf else NegInf)"

fun fmul :: "pyfloat \<Rightarrow> pyfloat \<Rightarrow> pyfloat" where
  "fmul (Finite x) (Finite y) = round_to_double (x * y)"
| "fmul NaN b = NaN"
| "fmul a NaN = NaN"
| "fmul (Finite x) PosInf = inf_of_sign x"
| "fmul (Finite x) NegInf = inf_of_sign (- x)"
| "fmul PosInf (Finite y) = inf_of_sign y"
| "fmul NegInf (Finite y) = inf_of_sign (- y)"
| "fmul PosInf PosInf = PosInf"
| "fmul PosInf NegInf = NegInf"
| "fmul NegInf PosInf = NegInf"
| "fmul NegInf NegInf = PosInf"

text \<open>
  An int operand of float arithmetic is converted first, to the nearest double;
  Python raises \<^verbatim>\<open>OverflowError\<close> when the int is too large.
\<close>

definition float_of_int :: "int \<Rightarrow> error + pyfloat" where
  "float_of_int n =
     (case round_to_double (of_int n) of
        Finite x \<Rightarrow> Inr (Finite x)
      | _ \<Rightarrow> Inl OverflowError)"

text \<open>
  \<^verbatim>\<open>round(x)\<close> of a float is the nearest int, ties to the even one; it raises
  \<^verbatim>\<open>OverflowError\<close> for an infinity and \<^verbatim>\<open>ValueError\<close> for a NaN.
\<close>

definition py_round :: "pyfloat \<Rightarrow> error + int" where
  "py_round x =
     (case x of
        Finite v \<Rightarrow> Inr (round_half_even v)
      | NaN \<Rightarrow> Inl NanToInteger
      | _ \<Rightarrow> Inl OverflowError)"

text \<open>
  \<^verbatim>\<open>math.pi\<close> is the double nearest to \<open>\<pi>\<close>, \<open>884279719003555 / 2\<^sup>4\<^sup>8\<close>.
  \<^verbatim>\<open>math.cos\<close> is the C library's cosine, taken here to be correctly rounded; it
  raises \<^verbatim>\<open>ValueError\<close> for an infinity.
\<close>

definition math_pi :: pyfloat where
  "math_pi = Finite (884279719003555 / 2 ^ 48)"

definition math_cos :: "pyfloat \<Rightarrow> error + pyfloat" where
  "math_cos x =
     (case x of
        Finite v \<Rightarrow> Inr (round_to_double (cos v))
      | NaN \<Rightarrow> Inr NaN
      | _ \<Rightarrow> Inl MathDomainError)"

text \<open>Half of the value of \<^verbatim>\<open>math.pi\<close>, as a real number.\<close>

definition half_pi_double :: real where
  "half_pi_double = 884279719003555 / 562949953421312"

section \<open>Rasters\<close>

text \<open>
  A Pillow image: its mode, its size and its pixel buffer. Only the positions
  \<open>0 \<le> x < im_w\<close>, \<open>0 \<le> y < im_h\<close> belong to the image. A pixel is four bytes, as
  Pillow stores both modes; in mode \<open>RGB\<close> the fourth byte is padding.
\<close>

datatype mode = RGB | RGBA

type_synonym pixel = "8 word \<times> 8 word \<times> 8 word \<times> 8 word"

record raster =
  im_mode :: mode
  im_w :: nat
  im_h :: nat
  im_px :: "int \<Rightarrow> int \<Rightarrow> pixel"

definition in_bounds :: "raster \<Rightarrow> int \<Rightarrow> int \<Rightarrow> bool" where
  "in_bounds img x y = (0 \<le> x \<and> x < int (im_w img) \<and> 0 \<le> y \<and> y < int (im_h img))"

definition alpha :: "pixel \<Rightarrow> 8 word" where
  "alpha p = (case p of (r, g, b, a) \<Rightarrow> a)"

text \<open>\<^verbatim>\<open>Image.new(mode, size, color)\<close>.\<close>

definition pil_new :: "mode \<Rightarrow> nat \<Rightarrow> nat \<Rightarrow> pixel \<Rightarrow> raster" where
  "pil_new m w h color = \<lparr>im_mode = m, im_w = w, im_h = h, im_px = (\<lambda>x y. color)\<rparr>"

text \<open>
  \<^verbatim>\<open>Image.crop(box)\<close>: a new image of the size of the box; positions of the box outside
  the image read as zero. Pillow raises \<^verbatim>\<open>ValueError\<close> when \<^verbatim>\<open>right < left\<close> or
  \<^verbatim>\<open>lower < upper\<close>.
\<close>

definition pil_crop :: "raster \<Rightarrow> int \<times> int \<times> int \<times> int \<Rightarrow> error + raster" where
  "pil_crop img box =
     (case box of (left, upper, right, lower) \<Rightarrow>
        if right < left \<or> lower < upper then Inl BadCropBox
        else Inr \<lparr>im_mode = im_mode img,
                  im_w = nat (right - left),
                  im_h = nat (lower - upper),
                  im_px = (\<lambda>x y. if in_bounds img (x + left) (y + upper)
                                   then im_px img (x + left) (y + upper)
                                   else (0, 0, 0, 0))\<rparr>)"

text \<open>
  \<^verbatim>\<open>Image.resize(size, resample)\<close>. Pillow returns a copy when the size is the image's
  own; otherwise the resampling filter computes the pixels. The filter (LANCZOS in the
  source) is floating-point code of Pillow and is a parameter here: it gives the pixel
  at each position of the new image.
\<close>

type_synonym resampler = "raster \<Rightarrow> nat \<Rightarrow> nat \<Rightarrow> int \<Rightarrow> int \<Rightarrow> pixel"

definition pil_resize :: "resampler \<Rightarrow> raster \<Rightarrow> nat \<Rightarrow> nat \<Rightarrow> raster" where
  "pil_resize resample img w h =
     (if im_w img = w \<and> im_h img = h then img
      else \<lparr>im_mode = im_mode img, im_w = w, im_h = h, im_px = resample img w h\<rparr>)"

text \<open>\<^verbatim>\<open>Image.convert(mode)\<close> between the two modes: the alpha byte becomes opaque.\<close>

definition pil_convert :: "mode \<Rightarrow> raster \<Rightarrow> raster" where
  "pil_convert m img =
     (if im_mode img = m then img
      else img\<lparr>im_mode := m,
               im_px := (\<lambda>x y. case im_px img x y of (r, g, b, a) \<Rightarrow> (r, g, b, 255))\<rparr>)"

text \<open>
  Pillow's \<^verbatim>\<open>BLEND8(mask, in1, in2)\<close>: \<open>(in1 * (255 - mask) + in2 * mask) / 255\<close>, rounded
  with shifts.
\<close>

definition blend8 :: "8 word \<Rightarrow> 8 word \<Rightarrow> 8 word \<Rightarrow> 8 word" where
  "blend8 matte in1 in2 =
     (let t = unat in1 * (255 - unat matte) + unat in2 * unat matte + 128
      in of_nat ((t div 256 + t) div 256))"

definition blend_pixel :: "8 word \<Rightarrow> pixel \<Rightarrow> pixel \<Rightarrow> pixel" where
  "blend_pixel matte out inp =
     (case out of (r1, g1, b1, a1) \<Rightarrow> case inp of (r2, g2, b2, a2) \<Rightarrow>
        (blend8 matte r1 r2, blend8 matte g1 g2, blend8 matte b1 b2, blend8 matte a1 a2))"

text \<open>
  \<^verbatim>\<open>dest.paste(im, (x0, y0), mask)\<close>: the box is \<^verbatim>\<open>im\<close>'s size at \<open>(x0, y0)\<close>, clipped
  by Pillow to \<^verbatim>\<open>dest\<close>. Without a mask the pixels of \<^verbatim>\<open>im\<close> (converted to the mode of
  \<^verbatim>\<open>dest\<close>) replace those of \<^verbatim>\<open>dest\<close>; with a mask each byte is blended. The mask is
  given by its value at each position of \<^verbatim>\<open>im\<close>.
\<close>

definition pil_paste ::
  "raster \<Rightarrow> raster \<Rightarrow> int \<times> int \<Rightarrow> (int \<Rightarrow> int \<Rightarrow> 8 word) option \<Rightarrow> raster" where
  "pil_paste dest im pos matte =
     (case pos of (x0, y0) \<Rightarrow>
        dest\<lparr>im_px := (\<lambda>x y.
          if x0 \<le> x \<and> x < x0 + int (im_w im) \<and> y0 \<le> y \<and> y < y0 + int (im_h im)
             \<and> in_bounds dest x y
          then (case matte of
                  None \<Rightarrow> im_px (pil_convert (im_mode dest) im) (x - x0) (y - y0)
                | Some m \<Rightarrow> blend_pixel (m (x - x0) (y - y0)) (im_px dest x y)
                              (im_px im (x - x0) (y - y0)))
          else im_px dest x y)\<rparr>)"

section \<open>Tile renderer, flattener and paste (tiler\_toolkit.py)\<close>

text \<open>
  The expression \<^verbatim>\<open>max(1, int(round(tile_dim * scale)))\<close> of \<^verbatim>\<open>crop_and_scale_tile\<close>:
  the int is converted to a float, the product is rounded to a double, and \<^verbatim>\<open>round\<close>
  gives an int or raises.
\<close>

definition scaled_size :: "int \<Rightarrow> pyfloat \<Rightarrow> error + int" where
  "scaled_size tile_dim scale =
     (case float_of_int tile_dim of
        Inl e \<Rightarrow> Inl e
      | Inr f \<Rightarrow>
          (case py_round (fmul f scale) of
             Inl e \<Rightarrow> Inl e
           | Inr n \<Rightarrow> Inr (max 1 n)))"

text \<open>
  \<^verbatim>\<open>crop_and_scale_tile\<close>: crop, then the two sizes, then the resize. Pillow's limits
  on the size of an image it can allocate are not modelled.
\<close>

definition crop_and_scale_tile ::
  "resampler \<Rightarrow> raster \<Rightarrow> int \<Rightarrow> int \<Rightarrow> int \<Rightarrow> int \<Rightarrow> pyfloat \<Rightarrow> error + raster" where
  "crop_and_scale_tile resample src_img left top' tile_w tile_h scale =
     (let right = left + tile_w;
          bottom = top' + tile_h
      in case pil_crop src_img (left, top', right, bottom) of
           Inl e \<Rightarrow> Inl e
         | Inr tile \<Rightarrow>
             (case scaled_size tile_w scale of
                Inl e \<Rightarrow> Inl e
              | Inr new_w \<Rightarrow>
                  (case scaled_size tile_h scale of
                     Inl e \<Rightarrow> Inl e
                   | Inr new_h \<Rightarrow> Inr (pil_resize resample tile (nat new_w) (nat new_h)))))"

text \<open>
  The clipping arithmetic of \<^verbatim>\<open>paste_with_center\<close> (its lines up to the emptiness
  test): the box to take from \<^verbatim>\<open>src\<close> and the corner in \<^verbatim>\<open>dest\<close> to paste it at.
\<close>

definition clip_box ::
  "int \<Rightarrow> int \<Rightarrow> int \<Rightarrow> int \<Rightarrow> int \<Rightarrow> int \<Rightarrow> (int \<times> int \<times> int \<times> int) \<times> (int \<times> int)" where
  "clip_box dest_w dest_h src_w src_h center_x center_y =
     (let paste_x = center_x - src_w div 2;
          paste_y = center_y - src_h div 2;
          src_left = (if paste_x < 0 then - paste_x else 0);
          dst_left = (if paste_x < 0 then 0 else paste_x);
          src_top = (if paste_y < 0 then - paste_y else 0);
          dst_top = (if paste_y < 0 then 0 else paste_y);
          src_right = (if paste_x + src_w > dest_w
                       then src_w - ((paste_x + src_w) - dest_w) else src_w);
          src_bottom = (if paste_y + src_h > dest_h
                        then src_h - ((paste_y + src_h) - dest_h) else src_h)
      in ((src_left, src_top, src_right, src_bottom), (dst_left, dst_top)))"

text \<open>
  \<^verbatim>\<open>paste_with_center(dest, src, center_x, center_y)\<close> mutates \<^verbatim>\<open>dest\<close>; the function
  returns the new contents of \<^verbatim>\<open>dest\<close>.
\<close>

definition paste_with_center :: "raster \<Rightarrow> raster \<Rightarrow> int \<Rightarrow> int \<Rightarrow> error + raster" where
  "paste_with_center dest src center_x center_y =
     (case clip_box (int (im_w dest)) (int (im_h dest)) (int (im_w src)) (int (im_h src))
             center_x center_y of
        ((src_left, src_top, src_right, src_bottom), (dst_left, dst_top)) \<Rightarrow>
          if src_left \<ge> src_right \<or> src_top \<ge> src_bottom then Inr dest
          else case pil_crop src (src_left, src_top, src_right, src_bottom) of
                 Inl e \<Rightarrow> Inl e
               | Inr src_crop \<Rightarrow>
                   let matte = (if im_mode src_crop = RGBA
                               then Some (\<lambda>x y. alpha (im_px src_crop x y)) else None)
                   in Inr (pil_paste dest src_crop (dst_left, dst_top) matte))"

text \<open>
  Images as objects. A store is the list of the image objects that exist; a reference is
  a position in it, and two arguments may be the same reference. The two Pillow calls
  of \<^verbatim>\<open>paste_with_center\<close> act on the store: \<^verbatim>\<open>im.crop(box)\<close> reads \<^verbatim>\<open>im\<close> and
  returns a new object, and \<^verbatim>\<open>dest.paste(im, pos, mask)\<close> reads \<^verbatim>\<open>im\<close> and \<^verbatim>\<open>mask\<close>
  and writes the object \<^verbatim>\<open>dest\<close>.
\<close>

type_synonym store = "raster list"

definition crop_at :: "store \<Rightarrow> nat \<Rightarrow> int \<times> int \<times> int \<times> int \<Rightarrow> error + (nat \<times> store)" where
  "crop_at h im box =
     (case pil_crop (h ! im) box of
        Inl e \<Rightarrow> Inl e
      | Inr cropped \<Rightarrow> Inr (length h, h @ [cropped]))"

definition paste_at :: "store \<Rightarrow> nat \<Rightarrow> nat \<Rightarrow> int \<times> int \<Rightarrow> nat option \<Rightarrow> store" where
  "paste_at h dest im pos matte =
     h[dest := pil_paste (h ! dest) (h ! im) pos
                 (case matte of
                    None \<Rightarrow> None
                  | Some m \<Rightarrow> Some (\<lambda>x y. alpha (im_px (h ! m) x y)))]"

text \<open>
  \<^verbatim>\<open>paste_with_center(dest, src, center_x, center_y)\<close> on references, statement by
  statement: the two sizes are read, the box is clipped, and unless it is empty
  \<^verbatim>\<open>src\<close> is cropped and the crop is pasted into \<^verbatim>\<open>dest\<close>. The result is the store
  after the call.
\<close>

definition paste_with_center_at :: "store \<Rightarrow> nat \<Rightarrow> nat \<Rightarrow> int \<Rightarrow> int \<Rightarrow> error + store" where
  "paste_with_center_at h dest src center_x center_y =
     (case clip_box (int (im_w (h ! dest))) (int (im_h (h ! dest)))
             (int (im_w (h ! src))) (int (im_h (h ! src))) center_x center_y of
        ((src_left, src_top, src_right, src_bottom), (dst_left, dst_top)) \<Rightarrow>
          if src_left \<ge> src_right \<or> src_top \<ge> src_bottom then Inr h
          else case crop_at h src (src_left, src_top, src_right, src_bottom) of
                 Inl e \<Rightarrow> Inl e
               | Inr (src_crop, h1) \<Rightarrow>
                   let matte = (if im_mode (h1 ! src_crop) = RGBA then Some src_crop else None)
                   in Inr (paste_at h1 dest src_crop (dst_left, dst_top) matte))"

definition flatten_opaque :: "raster \<Rightarrow> pixel \<Rightarrow> raster" where
  "flatten_opaque img bg_color =
     (if im_mode img = RGBA
      then pil_paste (pil_new RGB (im_w img) (im_h img) bg_color) img (0, 0)
             (Some (\<lambda>x y. alpha (im_px img x y)))
      else pil_convert RGB img)"

section \<open>Layer compositor (tiler\_toolkit.py)\<close>

text \<open>
  \<^verbatim>\<open>Random.random()\<close> is a 53-bit fraction in \<open>[0, 1)\<close>, and
  \<^verbatim>\<open>Random.uniform(a, b)\<close> is \<^verbatim>\<open>a + (b - a) * random()\<close>.
\<close>

definition random_unit :: "rng \<Rightarrow> pyfloat \<times> rng" where
  "random_unit g =
     (case next_raw g of (r, g') \<Rightarrow> (Finite (real (r mod 2 ^ 53) / 2 ^ 53), g'))"

definition uniform :: "pyfloat \<Rightarrow> pyfloat \<Rightarrow> rng \<Rightarrow> pyfloat \<times> rng" where
  "uniform a b g = (case random_unit g of (u, g') \<Rightarrow> (fadd a (fmul (fsub b a) u), g'))"

text \<open>
  The dataclass \<^verbatim>\<open>TilePlacement\<close> with its fields \<^verbatim>\<open>image\<close>, \<^verbatim>\<open>center\<close>,
  \<^verbatim>\<open>scale\<close> and \<^verbatim>\<open>box\<close>.
\<close>

record TilePlacement =
  tp_image :: raster
  tp_center :: "int \<times> int"
  tp_scale :: pyfloat
  tp_box :: "int \<times> int \<times> int \<times> int"

text \<open>
  The first loop of \<^verbatim>\<open>build_layered_tiles\<close>, for the remaining \<open>k\<close> tiles. The
  position comes from \<^verbatim>\<open>choose_random_tile_position\<close>, which reads the module-level
  generator \<open>ambient\<close>; the scale comes from the generator \<open>rng\<close> that was passed in.
\<close>

fun sample_placements ::
  "resampler \<Rightarrow> raster \<Rightarrow> int \<Rightarrow> int \<Rightarrow> pyfloat \<Rightarrow> pyfloat \<Rightarrow> pixel \<Rightarrow> nat \<Rightarrow> rng \<Rightarrow> rng
     \<Rightarrow> error + (TilePlacement list \<times> rng \<times> rng)" where
  "sample_placements resample src tile_w tile_h min_scale max_scale background 0 ambient rng
     = Inr ([], ambient, rng)"
| "sample_placements resample src tile_w tile_h min_scale max_scale background (Suc k)
     ambient rng =
     (case choose_random_tile_position ambient (int (im_w src)) (int (im_h src)) tile_w tile_h of
        Inl e \<Rightarrow> Inl e
      | Inr ((left, top', cx, cy), ambient1) \<Rightarrow>
          (case uniform min_scale max_scale rng of
             (scale, rng1) \<Rightarrow>
               (case crop_and_scale_tile resample src left top' tile_w tile_h scale of
                  Inl e \<Rightarrow> Inl e
                | Inr tile \<Rightarrow>
                    (case sample_placements resample src tile_w tile_h min_scale max_scale
                            background k ambient1 rng1 of
                       Inl e \<Rightarrow> Inl e
                     | Inr (rest, ambient2, rng2) \<Rightarrow>
                         Inr (\<lparr>tp_image = flatten_opaque tile background,
                               tp_center = (cx, cy),
                               tp_scale = scale,
                               tp_box = (left, top', left + tile_w, top' + tile_h)\<rparr> # rest,
                              ambient2, rng2)))))"

text \<open>The second loop: paste the placements in the given order.\<close>

fun paste_layers :: "raster \<Rightarrow> TilePlacement list \<Rightarrow> nat list \<Rightarrow> error + raster" where
  "paste_layers canvas placements [] = Inr canvas"
| "paste_layers canvas placements (idx # order) =
     (let placement = placements ! idx
      in case paste_with_center canvas (tp_image placement)
                (fst (tp_center placement)) (snd (tp_center placement)) of
           Inl e \<Rightarrow> Inl e
         | Inr canvas' \<Rightarrow> paste_layers canvas' placements order)"

text \<open>
  \<^verbatim>\<open>build_layered_tiles(src, tile_w, tile_h, tile_count, min_scale, max_scale, background,
  rng)\<close>, with the state of the module-level generator as a further argument. The result
  is the canvas and the two generator states after the run. The background colour is
  given as the pixel it parses to.
\<close>

definition build_layered_tiles ::
  "resampler \<Rightarrow> rng \<Rightarrow> raster \<Rightarrow> int \<Rightarrow> int \<Rightarrow> int \<Rightarrow> pyfloat \<Rightarrow> pyfloat \<Rightarrow> pixel \<Rightarrow> rng
     \<Rightarrow> error + (raster \<times> rng \<times> rng)" where
  "build_layered_tiles resample ambient src tile_w tile_h tile_count min_scale max_scale
     background rng =
     (case sample_placements resample src tile_w tile_h min_scale max_scale background
             (nat tile_count) ambient rng of
        Inl e \<Rightarrow> Inl e
      | Inr (placements, ambient', rng1) \<Rightarrow>
          (case shuffle [0..<nat tile_count] rng1 of
             (order, rng2) \<Rightarrow>
               (case paste_layers (pil_new RGB (im_w src) (im_h src) background)
                       placements order of
                  Inl e \<Rightarrow> Inl e
                | Inr canvas \<Rightarrow> Inr (canvas, ambient', rng2))))"

section \<open>Easing (legacy/tiler-test-05.py)\<close>

text \<open>
  \<^verbatim>\<open>ease_smooth_sine(t)\<close> is \<^verbatim>\<open>0.5 * (1 - math.cos(math.pi * t))\<close>, each operation in
  double arithmetic.
\<close>

definition ease_smooth_sine :: "pyfloat \<Rightarrow> error + pyfloat" where
  "ease_smooth_sine t =
     (case math_cos (fmul math_pi t) of
        Inl e \<Rightarrow> Inl e
      | Inr c \<Rightarrow> Inr (fmul (Finite (1 / 2)) (fsub (Finite 1) c)))"

section \<open>Example inputs\<close>

definition red :: pixel where
  "red = (255, 0, 0, 255)"

definition blue :: pixel where
  "blue = (0, 0, 255, 255)"

definition white :: pixel where
  "white = (255, 255, 255, 255)"

text \<open>A 2 by 1 image, as the command line loads it (mode RGBA): a red and a blue pixel.\<close>

definition red_blue :: raster where
  "red_blue = \<lparr>im_mode = RGBA, im_w = 2, im_h = 1,
                im_px = (\<lambda>x y. if x = 0 then red else blue)\<rparr>"

text \<open>A store with that image as its only object, and one with a white canvas at
  reference 0 and the image at reference 1.\<close>

definition one_object :: store where
  "one_object = [red_blue]"

definition two_objects :: store where
  "two_objects = [pil_new RGB 2 1 white, red_blue]"

text \<open>
  A resampling filter to close the examples with (nearest neighbour on integer
  coordinates). The examples resize an image to its own size, where no filter runs.
\<close>

definition nearest :: resampler where
  "nearest img w h = (\<lambda>x y. im_px img (x * int (im_w img) div int w) (y * int (im_h img) div int h))"

section \<open>Properties of the generator\<close>

lemma randbelow_less: "0 < n \<Longrightarrow> fst (randbelow n g) < n"
  by (simp add: randbelow_def split: prod.split)

lemma randint_bounds:
  assumes "a \<le> b"
  obtains v g' where "randint a b g = Inr (v, g')" "a \<le> v" "v \<le> b"
proof -
  obtain r g' where rg: "randbelow (nat (b - a + 1)) g = (r, g')"
    by (cases "randbelow (nat (b - a + 1)) g")
  have "0 < nat (b - a + 1)" using assms by simp
  from randbelow_less [OF this, of g] rg have "r < nat (b - a + 1)" by simp
  then have "a + int r \<le> b" by linarith
  moreover have "randint a b g = Inr (a + int r, g')"
    using assms rg by (simp add: randint_def)
  ultimately show thesis using that by simp
qed

section \<open>Properties of the sampler\<close>

text \<open>
  C3. Whenever the tile fits (\<open>0 < tile_w \<le> img_w\<close>, \<open>0 < tile_h \<le> img_h\<close>) the sampler
  returns, for every generator state, and the sampled box lies inside the image:
  \<open>left \<ge> 0\<close>, \<open>top \<ge> 0\<close>, \<open>left + tile_w \<le> img_w\<close>, \<open>top + tile_h \<le> img_h\<close>.
\<close>

theorem sampled_box_contained:
  assumes "0 < tile_w" "tile_w \<le> img_w" "0 < tile_h" "tile_h \<le> img_h"
  shows "\<exists>left top' cx cy g'.
           choose_random_tile_position g img_w img_h tile_w tile_h
             = Inr ((left, top', cx, cy), g')
           \<and> 0 \<le> left \<and> 0 \<le> top' \<and> left + tile_w \<le> img_w \<and> top' + tile_h \<le> img_h"
proof -
  from assms have le: "(0::int) \<le> img_w - tile_w" "(0::int) \<le> img_h - tile_h" by simp_all
  obtain l g1 where l: "randint 0 (img_w - tile_w) g = Inr (l, g1)" "0 \<le> l" "l \<le> img_w - tile_w"
    using randint_bounds [OF le(1)] by blast
  obtain t g2 where t: "randint 0 (img_h - tile_h) g1 = Inr (t, g2)" "0 \<le> t" "t \<le> img_h - tile_h"
    using randint_bounds [OF le(2)] by blast
  have "choose_random_tile_position g img_w img_h tile_w tile_h
          = Inr ((l, t, l + tile_w div 2, t + tile_h div 2), g2)"
    using assms l(1) t(1) by (simp add: choose_random_tile_position_def ensure_positive_def)
  with l t show ?thesis by auto
qed

theorem sampled_box_contained_witness:
  "\<exists>left top' cx cy g'.
     choose_random_tile_position [7, 5] 100 100 20 20 = Inr ((left, top', cx, cy), g')
     \<and> 0 \<le> left \<and> 0 \<le> top' \<and> left + 20 \<le> 100 \<and> top' + 20 \<le> 100"
  using sampled_box_contained [of 20 100 20 100 "[7, 5]"] by simp

text \<open>
  C7. Every result of the sampler has \<open>center_x = left + tile_w // 2\<close> and
  \<open>center_y = top + tile_h // 2\<close> with floor division: twice the offset of the centre is
  the tile dimension when that is even and one less when it is odd.
\<close>

theorem sampled_center_floor:
  assumes "choose_random_tile_position g img_w img_h tile_w tile_h
             = Inr ((left, top', cx, cy), g')"
  shows "cx = left + tile_w div 2 \<and> cy = top' + tile_h div 2
         \<and> 2 * (cx - left) = (if even tile_w then tile_w else tile_w - 1)
         \<and> 2 * (cy - top') = (if even tile_h then tile_h else tile_h - 1)"
proof -
  from assms have c: "cx = left + tile_w div 2" "cy = top' + tile_h div 2"
    by (auto simp: choose_random_tile_position_def Let_def
             split: sum.splits if_splits prod.splits)
  have "2 * (tile_w div 2) = (if even tile_w then tile_w else tile_w - 1)"
    by presburger
  moreover have "2 * (tile_h div 2) = (if even tile_h then tile_h else tile_h - 1)"
    by presburger
  ultimately show ?thesis using c by simp
qed

theorem sampled_center_floor_witness:
  "choose_random_tile_position [7, 5] 100 100 20 21 = Inr ((7, 5, 17, 15), [])
   \<and> (17::int) = 7 + 20 div 2 \<and> (15::int) = 5 + 21 div 2
   \<and> 2 * ((17::int) - 7) = 20 \<and> 2 * ((15::int) - 5) = 21 - 1"
proof -
  have r: "choose_random_tile_position [7, 5] 100 100 20 21 = Inr ((7, 5, 17, 15), [])"
    by (simp add: choose_random_tile_position_def ensure_positive_def randint_def
                  randbelow_def next_raw_def)
  from sampled_center_floor [OF r] r show ?thesis by simp
qed

section \<open>Properties of shuffling and enumeration\<close>

lemma mset_shuffle_loop:
  "i < length x \<Longrightarrow> mset (fst (shuffle_loop i x g)) = mset x"
proof (induction i arbitrary: x g)
  case 0
  then show ?case by simp
next
  case (Suc i)
  obtain j g' where jg: "randbelow (Suc i + 1) g = (j, g')"
    by (cases "randbelow (Suc i + 1) g")
  from randbelow_less [of "Suc i + 1" g] jg have "j < Suc i + 1" by simp
  with Suc.prems have j: "j < length x" by simp
  let ?y = "x[Suc i := x ! j, j := x ! Suc i]"
  have "mset ?y = mset x" using Suc.prems j by (simp add: mset_swap)
  moreover have "i < length ?y" using Suc.prems by simp
  ultimately show ?case using Suc.IH [of ?y g'] jg by simp
qed

lemma mset_shuffle: "mset (fst (shuffle x g)) = mset x"
proof (cases x)
  case Nil
  then show ?thesis by (simp add: shuffle_def)
next
  case (Cons a as)
  then show ?thesis by (simp add: shuffle_def mset_shuffle_loop)
qed

lemma mset_remove_nth:
  "i < length xs \<Longrightarrow> add_mset (xs ! i) (mset (take i xs @ drop (Suc i) xs)) = mset xs"
proof -
  assume "i < length xs"
  then have "xs = take i xs @ xs ! i # drop (Suc i) xs" by (rule id_take_nth_drop)
  then have "mset xs = mset (take i xs @ xs ! i # drop (Suc i) xs)" by simp
  then show ?thesis by simp
qed

lemma mset_permutations_len:
  "length xs = k \<Longrightarrow> p \<in> set (permutations_len k xs) \<Longrightarrow> mset p = mset xs"
proof (induction k arbitrary: xs p)
  case 0
  then show ?case by simp
next
  case (Suc k)
  from Suc.prems(2) obtain i q where i: "i < length xs"
    and q: "q \<in> set (permutations_len k (take i xs @ drop (Suc i) xs))"
    and p: "p = xs ! i # q"
    by auto
  have "length (take i xs @ drop (Suc i) xs) = k" using Suc.prems(1) i by simp
  from Suc.IH [OF this q] have "mset q = mset (take i xs @ drop (Suc i) xs)" .
  with p mset_remove_nth [OF i] show ?case by simp
qed

lemma length_permutations_len:
  "length xs = k \<Longrightarrow> length (permutations_len k xs) = fact k"
proof (induction k arbitrary: xs)
  case 0
  then show ?case by simp
next
  case (Suc k)
  let ?blk = "\<lambda>i. map ((#) (xs ! i)) (permutations_len k (take i xs @ drop (Suc i) xs))"
  have rest: "length (?blk i) = fact k" if "i < length xs" for i
  proof -
    have "length (take i xs @ drop (Suc i) xs) = k" using Suc.prems that by simp
    from Suc.IH [OF this] show ?thesis by simp
  qed
  have "map length (map ?blk [0..<length xs]) = map (\<lambda>i. fact k) [0..<length xs]"
    unfolding map_map by (rule map_cong) (simp_all only: comp_def rest atLeastLessThan_iff set_upt)
  then have "sum_list (map length (map ?blk [0..<length xs]))
             = sum_list (map (\<lambda>i. fact k) [0..<length xs])"
    by (rule arg_cong)
  also have "\<dots> = Suc k * fact k" using Suc.prems by (simp add: sum_list_triv)
  finally have "length (concat (map ?blk [0..<length xs])) = Suc k * fact k"
    by (simp only: length_concat)
  then show ?case by simp
qed

lemma distinct_remove_nth:
  assumes "distinct xs"
  shows "distinct (take i xs @ drop (Suc i) xs)"
proof -
  have "distinct (take i xs @ drop i xs)" using assms by simp
  then have "set (take i xs) \<inter> set (drop i xs) = {}" by (simp only: distinct_append)
  moreover have "set (drop (Suc i) xs) \<subseteq> set (drop i xs)"
    by (rule set_drop_subset_set_drop) simp
  ultimately have "set (take i xs) \<inter> set (drop (Suc i) xs) = {}" by blast
  with assms show ?thesis by simp
qed

lemma distinct_permutations_len:
  "length xs = k \<Longrightarrow> distinct xs \<Longrightarrow> distinct (permutations_len k xs)"
proof (induction k arbitrary: xs)
  case 0
  then show ?case by simp
next
  case (Suc k)
  let ?rest = "\<lambda>i. permutations_len k (take i xs @ drop (Suc i) xs)"
  let ?blk = "\<lambda>i. map ((#) (xs ! i)) (?rest i)"
  have ne: "?rest i \<noteq> []" if "i < length xs" for i
  proof -
    have "length (?rest i) = fact k"
      using Suc.prems(1) that by (intro length_permutations_len) simp
    then show ?thesis by (metis fact_nonzero list.size(3))
  qed
  have hd_blk: "\<And>p. p \<in> set (?blk i) \<Longrightarrow> hd p = xs ! i" for i by auto
  have inj: "inj_on ?blk (set [0..<length xs])"
  proof (rule inj_onI)
    fix i j assume i: "i \<in> set [0..<length xs]" and j: "j \<in> set [0..<length xs]"
      and eq: "?blk i = ?blk j"
    from i ne obtain q where "q \<in> set (?rest i)" by (fastforce simp: neq_Nil_conv)
    then have "xs ! i # q \<in> set (?blk i)" by simp
    with eq have "xs ! i # q \<in> set (?blk j)" by simp
    then have "xs ! i = xs ! j" by auto
    with Suc.prems(2) i j show "i = j" by (simp add: nth_eq_iff_index_eq)
  qed
  have d1: "distinct (map ?blk [0..<length xs])"
    using inj by (simp add: distinct_map)
  have d2: "distinct ys" if "ys \<in> set (map ?blk [0..<length xs])" for ys
  proof -
    from that obtain i where i: "i < length xs" and ys: "ys = ?blk i" by auto
    have "length (take i xs @ drop (Suc i) xs) = k" using Suc.prems(1) i by simp
    moreover have "distinct (take i xs @ drop (Suc i) xs)"
      using Suc.prems(2) by (rule distinct_remove_nth)
    ultimately have "distinct (?rest i)" by (rule Suc.IH)
    then show ?thesis unfolding ys by (simp add: distinct_map)
  qed
  have d3: "set ys \<inter> set zs = {}"
    if "ys \<in> set (map ?blk [0..<length xs])" "zs \<in> set (map ?blk [0..<length xs])" "ys \<noteq> zs"
    for ys zs
  proof -
    from that obtain i j where i: "i < length xs" "ys = ?blk i" and j: "j < length xs" "zs = ?blk j"
      by auto
    with that(3) have "i \<noteq> j" by auto
    with Suc.prems(2) i j have "xs ! i \<noteq> xs ! j" by (simp add: nth_eq_iff_index_eq)
    then show ?thesis unfolding i j by auto
  qed
  show ?case
    unfolding permutations_len.simps
    by (rule distinct_concat) (use d1 d2 d3 in blast)+
qed

section \<open>Properties of the permutation allocator\<close>

lemma is_order_mset: "mset p = mset [0..<n] \<Longrightarrow> is_order n p"
proof -
  assume m: "mset p = mset [0..<n]"
  then have "set p = set [0..<n]" by (rule mset_eq_setD)
  moreover from m have "distinct p = distinct [0..<n]" by (rule mset_eq_imp_distinct_iff)
  moreover from m have "length p = length [0..<n]" by (rule mset_eq_length)
  ultimately show ?thesis by (simp add: is_order_def)
qed

lemma shuffle_range_order: "is_order n (fst (shuffle [0..<n] g))"
  by (rule is_order_mset) (rule mset_shuffle)

lemma collect_unique_orders:
  "\<forall>p\<in>set orders. is_order n p \<Longrightarrow>
   \<forall>p\<in>set (fst (collect_unique n f m a seen orders g)). is_order n p"
proof (induction n f m a seen orders g rule: collect_unique.induct)
  case (1 n f m a seen orders g)
  show ?case
  proof (cases "length orders < f \<and> a < m")
    case False
    then show ?thesis using "1.prems" by (subst collect_unique.simps) auto
  next
    case True
    obtain c g' where cg: "shuffle [0..<n] g = (c, g')" by (cases "shuffle [0..<n] g")
    have c: "is_order n c" using shuffle_range_order [of n g] cg by simp
    show ?thesis
    proof (cases "c \<in> seen")
      case True
      from "1.IH"(1) [OF \<open>length orders < f \<and> a < m\<close> cg [symmetric] True "1.prems"]
      show ?thesis using \<open>length orders < f \<and> a < m\<close> cg True
        by (subst collect_unique.simps) simp
    next
      case False
      have "\<forall>p\<in>set (orders @ [c]). is_order n p" using "1.prems" c by simp
      from "1.IH"(2) [OF \<open>length orders < f \<and> a < m\<close> cg [symmetric] False this]
      show ?thesis using \<open>length orders < f \<and> a < m\<close> cg False
        by (subst collect_unique.simps) simp
    qed
  qed
qed

lemma collect_unique_length:
  "length orders \<le> f \<Longrightarrow> length (fst (collect_unique n f m a seen orders g)) \<le> f"
proof (induction n f m a seen orders g rule: collect_unique.induct)
  case (1 n f m a seen orders g)
  show ?case
  proof (cases "length orders < f \<and> a < m")
    case False
    then show ?thesis using "1.prems" by (subst collect_unique.simps) auto
  next
    case True
    obtain c g' where cg: "shuffle [0..<n] g = (c, g')" by (cases "shuffle [0..<n] g")
    show ?thesis
    proof (cases "c \<in> seen")
      case True
      from "1.IH"(1) [OF \<open>length orders < f \<and> a < m\<close> cg [symmetric] True "1.prems"]
      show ?thesis using \<open>length orders < f \<and> a < m\<close> cg True
        by (subst collect_unique.simps) simp
    next
      case False
      have "length (orders @ [c]) \<le> f" using \<open>length orders < f \<and> a < m\<close> by simp
      from "1.IH"(2) [OF \<open>length orders < f \<and> a < m\<close> cg [symmetric] False this]
      show ?thesis using \<open>length orders < f \<and> a < m\<close> cg False
        by (subst collect_unique.simps) simp
    qed
  qed
qed

lemma fill_orders_length:
  "length orders \<le> f \<Longrightarrow> length (fst (fill_orders n f orders g)) = f"
proof (induction n f orders g rule: fill_orders.induct)
  case (1 n f orders g)
  show ?case
  proof (cases "length orders < f")
    case False
    then show ?thesis using "1.prems" by (subst fill_orders.simps) simp
  next
    case True
    obtain c g' where cg: "shuffle [0..<n] g = (c, g')" by (cases "shuffle [0..<n] g")
    have "length (orders @ [c]) \<le> f" using True by simp
    from "1.IH" [OF True cg [symmetric] this]
    show ?thesis using True cg by (subst fill_orders.simps) simp
  qed
qed

lemma fill_orders_prefix:
  "take (length orders) (fst (fill_orders n f orders g)) = orders"
proof (induction n f orders g rule: fill_orders.induct)
  case (1 n f orders g)
  show ?case
  proof (cases "length orders < f")
    case False
    then show ?thesis by (subst fill_orders.simps) simp
  next
    case True
    obtain c g' where cg: "shuffle [0..<n] g = (c, g')" by (cases "shuffle [0..<n] g")
    from "1.IH" [OF True cg [symmetric]]
    have "take (Suc (length orders)) (fst (fill_orders n f (orders @ [c]) g')) = orders @ [c]"
      by simp
    then have "take (length orders) (take (Suc (length orders))
                 (fst (fill_orders n f (orders @ [c]) g'))) = take (length orders) (orders @ [c])"
      by (rule arg_cong)
    then have "take (length orders) (fst (fill_orders n f (orders @ [c]) g')) = orders"
      by (simp add: min_def)
    then show ?thesis using True cg by (subst fill_orders.simps) simp
  qed
qed

lemma fill_orders_suffix:
  "\<forall>p\<in>set (drop (length orders) (fst (fill_orders n f orders g))).
     \<exists>g'. p = fst (shuffle [0..<n] g')"
proof (induction n f orders g rule: fill_orders.induct)
  case (1 n f orders g)
  show ?case
  proof (cases "length orders < f")
    case False
    then show ?thesis by (subst fill_orders.simps) simp
  next
    case True
    obtain c g' where cg: "shuffle [0..<n] g = (c, g')" by (cases "shuffle [0..<n] g")
    let ?r = "fst (fill_orders n f (orders @ [c]) g')"
    have pre: "take (Suc (length orders)) ?r = orders @ [c]"
      using fill_orders_prefix [of "orders @ [c]" n f g'] by simp
    have len: "Suc (length orders) \<le> length ?r"
      using arg_cong [OF pre, of length] by simp
    have "drop (length orders) ?r = ?r ! length orders # drop (Suc (length orders)) ?r"
      using len by (simp add: Cons_nth_drop_Suc)
    moreover have "?r ! length orders = c"
      using arg_cong [OF pre, of "\<lambda>xs. xs ! length orders"] by simp
    moreover have "\<forall>p\<in>set (drop (Suc (length orders)) ?r). \<exists>g'. p = fst (shuffle [0..<n] g')"
      using "1.IH" [OF True cg [symmetric]] by simp
    moreover have "c = fst (shuffle [0..<n] g)" using cg by simp
    ultimately have "\<forall>p\<in>set (drop (length orders) ?r). \<exists>g'. p = fst (shuffle [0..<n] g')"
      by auto
    moreover have "fst (fill_orders n f orders g) = ?r"
      using True cg by (subst fill_orders.simps) simp
    ultimately show ?thesis by simp
  qed
qed

lemma fill_orders_orders:
  "\<forall>p\<in>set orders. is_order n p \<Longrightarrow>
   \<forall>p\<in>set (fst (fill_orders n f orders g)). is_order n p"
proof (induction n f orders g rule: fill_orders.induct)
  case (1 n f orders g)
  show ?case
  proof (cases "length orders < f")
    case False
    then show ?thesis using "1.prems" by (subst fill_orders.simps) simp
  next
    case True
    obtain c g' where cg: "shuffle [0..<n] g = (c, g')" by (cases "shuffle [0..<n] g")
    have c: "is_order n c" using shuffle_range_order [of n g] cg by simp
    have "\<forall>p\<in>set (orders @ [c]). is_order n p" using "1.prems" c by simp
    from "1.IH" [OF True cg [symmetric] this]
    show ?thesis using True cg by (subst fill_orders.simps) simp
  qed
qed

lemma permutations_range:
  "length (permutations [0..<n]) = fact n"
  "distinct (permutations [0..<n])"
  "p \<in> set (permutations [0..<n]) \<Longrightarrow> is_order n p"
  by (simp_all add: permutations_def length_permutations_len distinct_permutations_len
        is_order_mset mset_permutations_len del: mset_upt)

lemma enumerate_branch:
  assumes "f \<le> fact n" "fact n \<le> max_enum"
  shows "length (fst (build_unique_orders n f g)) = f"
    and "distinct (fst (build_unique_orders n f g))"
    and "\<forall>p\<in>set (fst (build_unique_orders n f g)). is_order n p"
proof -
  obtain sh g' where sh: "shuffle (permutations [0..<n]) g = (sh, g')"
    by (cases "shuffle (permutations [0..<n]) g")
  have m: "mset sh = mset (permutations [0..<n])" using mset_shuffle [of "permutations [0..<n]" g] sh
    by simp
  have r: "fst (build_unique_orders n f g) = take f sh"
    using assms sh by (simp add: build_unique_orders_def factorial_def)
  have len: "length sh = fact n" using mset_eq_length [OF m] permutations_range(1) by simp
  have d: "distinct sh" using mset_eq_imp_distinct_iff [OF m] permutations_range(2) by simp
  have s: "set sh = set (permutations [0..<n])" using m by (rule mset_eq_setD)
  show "length (fst (build_unique_orders n f g)) = f" using r len assms(1) by simp
  show "distinct (fst (build_unique_orders n f g))" using r d by simp
  show "\<forall>p\<in>set (fst (build_unique_orders n f g)). is_order n p"
    using r s permutations_range(3) by (auto dest: in_set_takeD)
qed

lemma build_unique_orders_orders:
  "\<forall>p\<in>set (fst (build_unique_orders n f g)). is_order n p"
proof (cases "f \<le> fact n \<and> fact n \<le> max_enum")
  case True
  then show ?thesis using enumerate_branch(3) by blast
next
  case False
  then have "fst (build_unique_orders n f g)
             = fst (collect_unique n f (max 1000 (f * 50)) 0 {} [] g)"
    by (auto simp: build_unique_orders_def factorial_def)
  then show ?thesis using collect_unique_orders [of "[]" n f "max 1000 (f * 50)" 0 "{}" g] by simp
qed

lemma build_unique_orders_length:
  "length (fst (build_unique_orders n f g)) \<le> f"
proof (cases "f \<le> fact n \<and> fact n \<le> max_enum")
  case True
  then show ?thesis using enumerate_branch(1) [of f n g] by simp
next
  case False
  then have "fst (build_unique_orders n f g)
             = fst (collect_unique n f (max 1000 (f * 50)) 0 {} [] g)"
    by (auto simp: build_unique_orders_def factorial_def)
  then show ?thesis using collect_unique_length [of "[]" f n "max 1000 (f * 50)" 0 "{}" g] by simp
qed

lemma allocate_length: "length (fst (allocate n f g)) = f"
proof -
  obtain os g1 where b: "build_unique_orders n f g = (os, g1)"
    by (cases "build_unique_orders n f g")
  have le: "length os \<le> f" using build_unique_orders_length [of n f g] b by simp
  show ?thesis
  proof (cases "length os < f")
    case True
    then show ?thesis using b le by (simp add: allocate_def fill_orders_length)
  next
    case False
    with le have "length os = f" by simp
    then show ?thesis using b by (simp add: allocate_def)
  qed
qed

lemma allocate_prefix:
  "take (length (fst (build_unique_orders n f g))) (fst (allocate n f g))
     = fst (build_unique_orders n f g)"
proof -
  obtain os g1 where b: "build_unique_orders n f g = (os, g1)"
    by (cases "build_unique_orders n f g")
  show ?thesis using b fill_orders_prefix [of os n f g1]
    by (simp add: allocate_def)
qed

lemma allocate_suffix:
  "\<forall>p\<in>set (drop (length (fst (build_unique_orders n f g))) (fst (allocate n f g))).
     \<exists>g'. p = fst (shuffle [0..<n] g')"
proof -
  obtain os g1 where b: "build_unique_orders n f g = (os, g1)"
    by (cases "build_unique_orders n f g")
  show ?thesis using b fill_orders_suffix [of os n f g1]
    by (simp add: allocate_def)
qed

lemma allocate_orders: "\<forall>p\<in>set (fst (allocate n f g)). is_order n p"
proof -
  obtain os g1 where b: "build_unique_orders n f g = (os, g1)"
    by (cases "build_unique_orders n f g")
  have os: "\<forall>p\<in>set os. is_order n p" using build_unique_orders_orders [of n f g] b by simp
  show ?thesis using b os fill_orders_orders [OF os, of f g1]
    by (simp add: allocate_def)
qed

text \<open>
  C5. When \<open>F \<le> N!\<close> and \<open>N!\<close> is at most the enumeration ceiling (200000),
  \<^verbatim>\<open>build_unique_orders\<close> returns exactly \<open>F\<close> orders, pairwise distinct, each a
  permutation of \<open>{0, \<dots>, N - 1}\<close>; so it does for \<open>N = 4\<close>, \<open>F = 10\<close>.
\<close>

theorem enumerated_orders_distinct:
  assumes "1 \<le> n" "1 \<le> f" "f \<le> fact n" "fact n \<le> max_enum"
  shows "length (fst (build_unique_orders n f g)) = f
         \<and> distinct (fst (build_unique_orders n f g))
         \<and> (\<forall>p\<in>set (fst (build_unique_orders n f g)). distinct p \<and> set p = {0..<n})"
  using enumerate_branch [OF assms(3) assms(4), of g] by (simp add: is_order_def)

theorem enumerated_orders_distinct_witness:
  "length (fst (build_unique_orders 4 10 [3, 1, 4, 1, 5, 9, 2, 6])) = 10
   \<and> distinct (fst (build_unique_orders 4 10 [3, 1, 4, 1, 5, 9, 2, 6]))"
proof -
  have h: "(1::nat) \<le> 4" "(1::nat) \<le> 10" "(10::nat) \<le> fact 4" "fact 4 \<le> max_enum"
    by (simp_all add: fact_numeral max_enum_def)
  from enumerated_orders_distinct [OF h, of "[3, 1, 4, 1, 5, 9, 2, 6]"] show ?thesis by simp
qed

text \<open>
  C6. For all \<open>N\<close>, \<open>F\<close> and generator states the allocator returns exactly \<open>F\<close> orders:
  the orders of \<^verbatim>\<open>build_unique_orders\<close> (at most \<open>F\<close>) come first, unchanged, and a
  shortfall left by the attempt budget is filled with further shuffles of
  \<^verbatim>\<open>range(N)\<close>; no branch raises.
\<close>

theorem allocate_exactly_frames:
  "length (fst (allocate n f g)) = f
   \<and> length (fst (build_unique_orders n f g)) \<le> f
   \<and> take (length (fst (build_unique_orders n f g))) (fst (allocate n f g))
       = fst (build_unique_orders n f g)
   \<and> (\<forall>p\<in>set (drop (length (fst (build_unique_orders n f g))) (fst (allocate n f g))).
         \<exists>g'. p = fst (shuffle [0..<n] g'))"
  using allocate_suffix [of n f g]
  by (simp add: allocate_length allocate_prefix build_unique_orders_length)

theorem allocate_exactly_frames_witness:
  "length (fst (allocate 1 2 [3, 1, 4])) = 2
   \<and> length (fst (build_unique_orders 1 2 [3, 1, 4])) \<le> 2"
  using allocate_exactly_frames [of 1 2 "[3, 1, 4]"] by simp

text \<open>
  C10. Every order returned by \<^verbatim>\<open>build_unique_orders\<close>, from the enumeration branch or
  from the shuffle branch, and every order of the allocator after the fill, is a
  permutation of \<open>{0, \<dots>, N - 1}\<close>: no index twice, every index present, length \<open>N\<close>.
\<close>

theorem orders_are_permutations:
  "(\<forall>p\<in>set (fst (build_unique_orders n f g)). distinct p \<and> set p = {0..<n} \<and> length p = n)
   \<and> (\<forall>p\<in>set (fst (allocate n f g)). distinct p \<and> set p = {0..<n} \<and> length p = n)"
  using build_unique_orders_orders [of n f g] allocate_orders [of n f g]
  by (simp add: is_order_def)

theorem orders_are_permutations_witness:
  "distinct (hd (fst (allocate 2 3 [3, 1, 4])))
   \<and> set (hd (fst (allocate 2 3 [3, 1, 4]))) = {0..<2}
   \<and> length (hd (fst (allocate 2 3 [3, 1, 4]))) = 2"
proof -
  have "length (fst (allocate 2 3 [3, 1, 4])) = 3" by (rule allocate_length)
  then have "fst (allocate 2 3 [3, 1, 4]) \<noteq> []" by auto
  then have "hd (fst (allocate 2 3 [3, 1, 4])) \<in> set (fst (allocate 2 3 [3, 1, 4]))"
    by (rule hd_in_set)
  with orders_are_permutations [of 2 3 "[3, 1, 4]"] show ?thesis by blast
qed

section \<open>Properties of the centre-aligned paste\<close>

lemma clip_box_inside:
  assumes "clip_box dest_w dest_h src_w src_h cx cy = ((sl, st, sr, sb), (dl, dt))"
    and "sl < sr" "st < sb" "0 \<le> dest_w" "0 \<le> dest_h" "0 \<le> src_w" "0 \<le> src_h"
  shows "0 \<le> sl \<and> 0 \<le> st \<and> sr \<le> src_w \<and> sb \<le> src_h
         \<and> 0 \<le> dl \<and> 0 \<le> dt \<and> dl + (sr - sl) \<le> dest_w \<and> dt + (sb - st) \<le> dest_h"
  using assms by (auto simp: clip_box_def Let_def split: if_splits)

lemma pil_paste_size [simp]:
  "im_w (pil_paste dest im pos matte) = im_w dest"
  "im_h (pil_paste dest im pos matte) = im_h dest"
  "im_mode (pil_paste dest im pos matte) = im_mode dest"
  by (simp_all add: pil_paste_def split: prod.split)

lemma pil_paste_outside:
  "\<not> (x0 \<le> x \<and> x < x0 + int (im_w im) \<and> y0 \<le> y \<and> y < y0 + int (im_h im)
      \<and> in_bounds dest x y)
   \<Longrightarrow> im_px (pil_paste dest im (x0, y0) matte) x y = im_px dest x y"
  by (auto simp: pil_paste_def)

lemma paste_with_center_total: "\<exists>dest'. paste_with_center dest src cx cy = Inr dest'"
  by (auto simp: paste_with_center_def pil_crop_def Let_def split: prod.splits)

text \<open>
  C2. For all rasters and all integers \<open>center_x\<close>, \<open>center_y\<close>, \<^verbatim>\<open>paste_with_center\<close>
  returns (it never raises), the size and mode of \<^verbatim>\<open>dest\<close> are kept, and no position
  outside \<^verbatim>\<open>dest\<close> changes. When the clipped region is empty \<^verbatim>\<open>dest\<close> is returned as
  it was. Otherwise the box cropped from \<^verbatim>\<open>src\<close> lies inside \<^verbatim>\<open>src\<close>, the box pasted
  lies inside \<^verbatim>\<open>dest\<close> (so Pillow's own clipping has nothing left to cut), and nothing
  outside the pasted box changes.
\<close>

theorem paste_with_center_safe:
  "\<exists>dest'. paste_with_center dest src cx cy = Inr dest'
     \<and> im_w dest' = im_w dest \<and> im_h dest' = im_h dest \<and> im_mode dest' = im_mode dest
     \<and> (\<forall>x y. \<not> in_bounds dest x y \<longrightarrow> im_px dest' x y = im_px dest x y)
     \<and> (case clip_box (int (im_w dest)) (int (im_h dest)) (int (im_w src)) (int (im_h src))
                cx cy of
          ((sl, st, sr, sb), (dl, dt)) \<Rightarrow>
            if sl \<ge> sr \<or> st \<ge> sb then dest' = dest
            else 0 \<le> sl \<and> 0 \<le> st \<and> sr \<le> int (im_w src) \<and> sb \<le> int (im_h src)
               \<and> 0 \<le> dl \<and> 0 \<le> dt
               \<and> dl + (sr - sl) \<le> int (im_w dest) \<and> dt + (sb - st) \<le> int (im_h dest)
               \<and> (\<forall>x y. \<not> (dl \<le> x \<and> x < dl + (sr - sl) \<and> dt \<le> y \<and> y < dt + (sb - st))
                      \<longrightarrow> im_px dest' x y = im_px dest x y))"
proof -
  obtain sl st sr sb dl dt where
    cb: "clip_box (int (im_w dest)) (int (im_h dest)) (int (im_w src)) (int (im_h src)) cx cy
           = ((sl, st, sr, sb), (dl, dt))"
    by (metis prod.exhaust)
  show ?thesis
  proof (cases "sl \<ge> sr \<or> st \<ge> sb")
    case True
    then have "paste_with_center dest src cx cy = Inr dest"
      using cb by (auto simp: paste_with_center_def)
    then show ?thesis using cb True by auto
  next
    case False
    then have ne: "sl < sr" "st < sb" by simp_all
    from clip_box_inside [OF cb ne] have inside:
      "0 \<le> sl \<and> 0 \<le> st \<and> sr \<le> int (im_w src) \<and> sb \<le> int (im_h src)
       \<and> 0 \<le> dl \<and> 0 \<le> dt
       \<and> dl + (sr - sl) \<le> int (im_w dest) \<and> dt + (sb - st) \<le> int (im_h dest)"
      by simp
    let ?crop = "\<lparr>im_mode = im_mode src, im_w = nat (sr - sl), im_h = nat (sb - st),
                   im_px = (\<lambda>x y. if in_bounds src (x + sl) (y + st)
                                    then im_px src (x + sl) (y + st) else (0, 0, 0, 0))\<rparr>"
    have crop: "pil_crop src (sl, st, sr, sb) = Inr ?crop"
      using ne by (simp add: pil_crop_def)
    let ?matte = "if im_mode ?crop = RGBA then Some (\<lambda>x y. alpha (im_px ?crop x y)) else None"
    let ?d = "pil_paste dest ?crop (dl, dt) ?matte"
    have r: "paste_with_center dest src cx cy = Inr ?d"
      using cb False crop by (simp add: paste_with_center_def Let_def)
    have out: "im_px ?d x y = im_px dest x y" if "\<not> in_bounds dest x y" for x y
      using that by (intro pil_paste_outside) simp
    have box: "im_px ?d x y = im_px dest x y"
      if "\<not> (dl \<le> x \<and> x < dl + (sr - sl) \<and> dt \<le> y \<and> y < dt + (sb - st))" for x y
    proof (rule pil_paste_outside)
      from ne have "int (im_w ?crop) = sr - sl" "int (im_h ?crop) = sb - st" by simp_all
      with that show "\<not> (dl \<le> x \<and> x < dl + int (im_w ?crop) \<and> dt \<le> y
                        \<and> y < dt + int (im_h ?crop) \<and> in_bounds dest x y)"
        by auto
    qed
    show ?thesis
      apply (rule exI [of _ ?d])
      using r cb False inside out box by simp
  qed
qed

theorem paste_with_center_safe_witness:
  "paste_with_center (pil_new RGB 2 1 white) red_blue 1000 (- 1000)
     = Inr (pil_new RGB 2 1 white)"
proof -
  have c: "clip_box 2 1 2 1 1000 (- 1000) = ((0, 1000, - 997, 1), (999, 0))"
    by (simp add: clip_box_def)
  from paste_with_center_safe [of "pil_new RGB 2 1 white" red_blue 1000 "- 1000"]
  show ?thesis by (auto simp: pil_new_def red_blue_def c)
qed

section \<open>The paste on objects of a store\<close>

text \<open>
  The call on references does to the object \<^verbatim>\<open>dest\<close> what \<^verbatim>\<open>paste_with_center\<close> computes
  from the two images, whether or not the references are the same; apart from that it
  only adds the temporary crop to the store.
\<close>

lemma paste_with_center_at_result:
  assumes "dest < length h"
  shows "\<exists>d extra. paste_with_center (h ! dest) (h ! src) cx cy = Inr d
           \<and> paste_with_center_at h dest src cx cy = Inr ((h @ extra)[dest := d])"
proof -
  obtain sl st sr sb dl dt where
    cb: "clip_box (int (im_w (h ! dest))) (int (im_h (h ! dest)))
           (int (im_w (h ! src))) (int (im_h (h ! src))) cx cy = ((sl, st, sr, sb), (dl, dt))"
    by (metis prod.exhaust)
  show ?thesis
  proof (cases "sl \<ge> sr \<or> st \<ge> sb")
    case True
    have "paste_with_center (h ! dest) (h ! src) cx cy = Inr (h ! dest)"
      using cb True by (auto simp: paste_with_center_def)
    moreover have "paste_with_center_at h dest src cx cy = Inr ((h @ [])[dest := h ! dest])"
      using cb True by (auto simp: paste_with_center_at_def)
    ultimately show ?thesis by blast
  next
    case False
    then have ne: "\<not> sr < sl" "\<not> sb < st" by simp_all
    obtain crop where crop: "pil_crop (h ! src) (sl, st, sr, sb) = Inr crop"
      using ne by (simp add: pil_crop_def)
    let ?matte = "if im_mode crop = RGBA then Some (\<lambda>x y. alpha (im_px crop x y)) else None"
    let ?d = "pil_paste (h ! dest) crop (dl, dt) ?matte"
    have p: "paste_with_center (h ! dest) (h ! src) cx cy = Inr ?d"
      using cb False crop by (simp add: paste_with_center_def Let_def)
    have c: "crop_at h src (sl, st, sr, sb) = Inr (length h, h @ [crop])"
      using crop by (simp add: crop_at_def)
    have "paste_with_center_at h dest src cx cy = Inr ((h @ [crop])[dest := ?d])"
      using cb False c assms
      by (simp add: paste_with_center_at_def paste_at_def Let_def nth_append)
    with p show ?thesis by blast
  qed
qed

text \<open>
  C9, as stated, fails when \<^verbatim>\<open>dest\<close> and \<^verbatim>\<open>src\<close> are the same object:
  \<^verbatim>\<open>paste_with_center(img, img, 2, 0)\<close> on the 2 by 1 image (red, blue) crops the red
  pixel and pastes it at \<open>(1, 0)\<close>, so the image passed as \<^verbatim>\<open>src\<close> is (red, red)
  afterwards.
\<close>

theorem paste_aliased_changes_src:
  "\<not> isl (paste_with_center_at one_object 0 0 2 0)
   \<and> im_px (one_object ! 0) 1 0 = blue
   \<and> im_px (projr (paste_with_center_at one_object 0 0 2 0) ! 0) 1 0 = red"
  by (simp add: paste_with_center_at_def one_object_def crop_at_def paste_at_def clip_box_def
        pil_crop_def pil_paste_def in_bounds_def blend_pixel_def blend8_def alpha_def
        red_blue_def red_def blue_def Let_def)

text \<open>
  C9, amended. When \<^verbatim>\<open>dest\<close> and \<^verbatim>\<open>src\<close> are distinct objects, the call returns, the
  object \<^verbatim>\<open>src\<close> and every other object that existed before the call are as before,
  and the object \<^verbatim>\<open>dest\<close> holds the result of the paste: the crop is a new object and
  the only write goes to \<^verbatim>\<open>dest\<close>.
\<close>

theorem paste_leaves_other_objects:
  assumes "dest < length h" "src < length h" "dest \<noteq> src"
  shows "\<exists>h'. paste_with_center_at h dest src cx cy = Inr h'
           \<and> h' ! src = h ! src
           \<and> (\<forall>r < length h. r \<noteq> dest \<longrightarrow> h' ! r = h ! r)
           \<and> paste_with_center (h ! dest) (h ! src) cx cy = Inr (h' ! dest)"
proof -
  obtain d extra where
    d: "paste_with_center (h ! dest) (h ! src) cx cy = Inr d"
    and r: "paste_with_center_at h dest src cx cy = Inr ((h @ extra)[dest := d])"
    using paste_with_center_at_result [OF assms(1)] by blast
  have "((h @ extra)[dest := d]) ! src = h ! src"
    using assms by (simp add: nth_append)
  moreover have "\<forall>r < length h. r \<noteq> dest \<longrightarrow> ((h @ extra)[dest := d]) ! r = h ! r"
    by (simp add: nth_append)
  moreover have "((h @ extra)[dest := d]) ! dest = d"
    using assms(1) by simp
  ultimately show ?thesis using d r by simp
qed

theorem paste_leaves_other_objects_witness:
  "\<exists>h'. paste_with_center_at two_objects 0 1 0 0 = Inr h' \<and> h' ! 1 = two_objects ! 1"
  using paste_leaves_other_objects [of 0 two_objects 1 0 0] by (auto simp: two_objects_def)

section \<open>Properties of double arithmetic\<close>

lemma round_half_even_of_int [simp]: "round_half_even (of_int n) = n"
  by (simp add: round_half_even_def)

lemma round_half_even_down:
  assumes "of_int k \<le> x" "x < of_int k + 1 / 2"
  shows "round_half_even x = k"
proof -
  have "\<lfloor>x\<rfloor> = k" using assms by (intro floor_unique) auto
  then show ?thesis using assms by (simp add: round_half_even_def)
qed

lemma round_half_even_up:
  assumes "of_int k + 1 / 2 < x" "x \<le> of_int k + 1"
  shows "round_half_even x = k + 1"
proof (cases "x = of_int k + 1")
  case True
  then have "x = of_int (k + 1)" by simp
  then show ?thesis by (simp only: round_half_even_of_int)
next
  case False
  with assms have "\<lfloor>x\<rfloor> = k" by (intro floor_unique) auto
  then show ?thesis using assms by (simp add: round_half_even_def)
qed

lemma round_half_even_cases:
  "round_half_even x = \<lfloor>x\<rfloor> \<and> x - of_int \<lfloor>x\<rfloor> \<le> 1 / 2
   \<or> round_half_even x = \<lfloor>x\<rfloor> + 1 \<and> 1 / 2 \<le> x - of_int \<lfloor>x\<rfloor>"
  by (simp add: round_half_even_def Let_def)

lemma round_half_even_le: "of_int (round_half_even x) \<le> x + 1 / 2"
proof -
  define f where "f = \<lfloor>x\<rfloor>"
  have b: "of_int f \<le> x" "x < of_int f + 1" unfolding f_def by linarith+
  from round_half_even_cases [of x]
  have "round_half_even x = f \<and> x - of_int f \<le> 1 / 2
        \<or> round_half_even x = f + 1 \<and> 1 / 2 \<le> x - of_int f"
    unfolding f_def .
  then show ?thesis
  proof
    assume "round_half_even x = f \<and> x - of_int f \<le> 1 / 2"
    then show ?thesis using b by simp
  next
    assume a: "round_half_even x = f + 1 \<and> 1 / 2 \<le> x - of_int f"
    then have "of_int (round_half_even x) = (of_int f + 1 :: real)" by simp
    with a show ?thesis by linarith
  qed
qed

lemma round_half_even_ge: "x - 1 / 2 \<le> of_int (round_half_even x)"
proof -
  define f where "f = \<lfloor>x\<rfloor>"
  have b: "of_int f \<le> x" "x < of_int f + 1" unfolding f_def by linarith+
  from round_half_even_cases [of x]
  have "round_half_even x = f \<and> x - of_int f \<le> 1 / 2
        \<or> round_half_even x = f + 1 \<and> 1 / 2 \<le> x - of_int f"
    unfolding f_def .
  then show ?thesis
  proof
    assume a: "round_half_even x = f \<and> x - of_int f \<le> 1 / 2"
    then have "of_int (round_half_even x) = (of_int f :: real)" by simp
    with a show ?thesis by linarith
  next
    assume a: "round_half_even x = f + 1 \<and> 1 / 2 \<le> x - of_int f"
    then have "of_int (round_half_even x) = (of_int f + 1 :: real)" by simp
    with b show ?thesis by linarith
  qed
qed

lemma pow2_split: "(2::real) powi e = 2 ^ k * 2 powi (e - int k)"
proof -
  have "(2::real) powi (int k + (e - int k)) = 2 powi int k * 2 powi (e - int k)"
    by (rule power_int_add) simp
  then show ?thesis by simp
qed

lemma ilog2_eq:
  assumes "2 powi e \<le> a" "a < 2 powi (e + 1)"
  shows "ilog2 a = e"
proof -
  have pos: "0 < a" using assms(1) zero_less_power_int [of "2::real" e] by linarith
  have "(2::real) powr real_of_int e = 2 powi e" "(2::real) powr real_of_int (e + 1) = 2 powi (e + 1)"
    by (simp_all only: powr_real_of_int' [of 2, simplified])
  then have "2 powr real_of_int e \<le> a \<and> a < 2 powr (real_of_int e + 1)"
    using assms by simp
  then show ?thesis unfolding ilog2_def using pos by (simp add: floor_log_eq_powr_iff)
qed

lemma round_to_double_binade:
  assumes "2 powi e \<le> \<bar>x\<bar>" "\<bar>x\<bar> < 2 powi (e + 1)" "- 1022 \<le> e" "e \<le> 1022"
  shows "round_to_double x
           = Finite (sgn x * (of_int (round_half_even (\<bar>x\<bar> / 2 powi (e - 52))) * 2 powi (e - 52)))"
proof -
  let ?q = "(2::real) powi (e - 52)"
  let ?n = "round_half_even (\<bar>x\<bar> / ?q)"
  have q: "0 < ?q" by simp
  have "0 < \<bar>x\<bar>" using assms(1) zero_less_power_int [of "2::real" e] by linarith
  then have x: "x \<noteq> 0" by auto
  have il: "ilog2 \<bar>x\<bar> = e" using assms(1,2) by (rule ilog2_eq)
  have split: "(2::real) powi (e + 1) = 2 ^ 53 * ?q"
    using pow2_split [of "e + 1" 53] by simp
  have "\<bar>x\<bar> / ?q < 2 ^ 53" using assms(2) q unfolding split by (simp add: field_simps)
  then have "of_int ?n < (2 ^ 53 + 1 / 2 :: real)" using round_half_even_le [of "\<bar>x\<bar> / ?q"] by linarith
  then have "of_int ?n < (of_int (2 ^ 53 + 1) :: real)" by simp
  then have "?n < 2 ^ 53 + 1" by (simp only: of_int_less_iff)
  then have "?n \<le> 2 ^ 53" by simp
  then have "(of_int ?n :: real) \<le> of_int (2 ^ 53)" by (simp only: of_int_le_iff)
  then have "of_int ?n * ?q \<le> 2 ^ 53 * ?q" using q by simp
  then have "of_int ?n * ?q \<le> 2 powi (e + 1)" unfolding split .
  also have "\<dots> \<le> 2 powi 1023" using assms(4) by (intro power_int_increasing) simp_all
  also have "\<dots> < (2::real) ^ 1024" by simp
  finally have "\<not> 2 ^ 1024 \<le> of_int ?n * ?q" by (simp only: not_le)
  then have nov: "\<not> 2 ^ 1024 \<le> of_int ?n * ?q" .
  have m: "max (ilog2 \<bar>x\<bar>) (- 1022) = e" using il assms(3) by simp
  show ?thesis by (simp only: round_to_double_def Let_def m x nov if_False)
qed

lemma round_to_double_exact:
  assumes "x = of_int n * 2 powi (e - 52)" "2 ^ 52 \<le> \<bar>n\<bar>" "\<bar>n\<bar> < 2 ^ 53"
    "- 1022 \<le> e" "e \<le> 1022"
  shows "round_to_double x = Finite x"
proof -
  let ?q = "(2::real) powi (e - 52)"
  have q: "0 < ?q" by simp
  have ax: "\<bar>x\<bar> = of_int \<bar>n\<bar> * ?q" unfolding assms(1) by (simp add: abs_mult)
  have e0: "(2::real) powi e = 2 ^ 52 * ?q"
    using pow2_split [of e 52] by simp
  have e1: "(2::real) powi (e + 1) = 2 ^ 53 * ?q"
    using pow2_split [of "e + 1" 53] by simp
  have "(of_int (2 ^ 52) :: real) \<le> of_int \<bar>n\<bar>" using assms(2) by (simp only: of_int_le_iff)
  then have lo: "2 powi e \<le> \<bar>x\<bar>" unfolding ax e0 using q by simp
  have "(of_int \<bar>n\<bar> :: real) < of_int (2 ^ 53)" using assms(3) by (simp only: of_int_less_iff)
  then have hi: "\<bar>x\<bar> < 2 powi (e + 1)" unfolding ax e1 using q by simp
  have "\<bar>x\<bar> / ?q = of_int \<bar>n\<bar>" unfolding ax using q by simp
  then have "round_half_even (\<bar>x\<bar> / ?q) = \<bar>n\<bar>" by (simp only: round_half_even_of_int)
  then have "round_to_double x = Finite (sgn x * (of_int \<bar>n\<bar> * ?q))"
    using round_to_double_binade [OF lo hi assms(4,5)] by simp
  also have "sgn x * (of_int \<bar>n\<bar> * ?q) = sgn x * \<bar>x\<bar>" unfolding ax ..
  also have "\<dots> = x" by (simp add: sgn_mult_abs)
  finally show ?thesis .
qed

lemma round_to_double_0 [simp]: "round_to_double 0 = Finite 0"
  by (simp add: round_to_double_def)

lemma round_to_double_1 [simp]: "round_to_double 1 = Finite 1"
  by (rule round_to_double_exact [of 1 "2 ^ 52" 0]) simp_all

lemma round_to_double_m1 [simp]: "round_to_double (- 1) = Finite (- 1)"
  by (rule round_to_double_exact [of "- 1" "- (2 ^ 52)" 0]) simp_all

lemma round_to_double_2 [simp]: "round_to_double 2 = Finite 2"
  by (rule round_to_double_exact [of 2 "2 ^ 52" 1]) simp_all

lemma round_half_even_1 [simp]: "round_half_even 1 = 1"
  using round_half_even_of_int [of 1] by simp

lemma round_half_even_m1 [simp]: "round_half_even (- 1) = - 1"
  using round_half_even_of_int [of "- 1"] by simp

lemma ilog2_bounds:
  assumes "0 < a"
  shows "2 powi ilog2 a \<le> a" "a < 2 powi (ilog2 a + 1)"
proof -
  have "2 powr real_of_int (ilog2 a) \<le> a \<and> a < 2 powr (real_of_int (ilog2 a) + 1)"
    using assms floor_log_eq_powr_iff [of a 2 "ilog2 a"] by (simp add: ilog2_def)
  moreover have "(2::real) powr real_of_int (ilog2 a) = 2 powi ilog2 a"
    by (simp only: powr_real_of_int' [of 2, simplified])
  moreover have "(2::real) powr (real_of_int (ilog2 a) + 1) = 2 powi (ilog2 a + 1)"
    using powr_real_of_int' [of 2 "ilog2 a + 1"] by simp
  ultimately show "2 powi ilog2 a \<le> a" "a < 2 powi (ilog2 a + 1)" by simp_all
qed

lemma round_to_double_overflow:
  assumes "2 ^ 1024 \<le> \<bar>x\<bar>"
  shows "round_to_double x = (if 0 < x then PosInf else NegInf)"
proof -
  define e where "e = ilog2 \<bar>x\<bar>"
  have pos: "0 < \<bar>x\<bar>" using assms by (simp add: less_le_trans [rotated])
  then have x: "x \<noteq> 0" by auto
  have b: "2 powi e \<le> \<bar>x\<bar>" "\<bar>x\<bar> < 2 powi (e + 1)"
    unfolding e_def using ilog2_bounds [OF pos] by simp_all
  have e: "1024 \<le> e"
  proof (rule ccontr)
    assume "\<not> 1024 \<le> e"
    then have "e + 1 \<le> 1024" by simp
    then have "(2::real) powi (e + 1) \<le> 2 powi 1024" by (intro power_int_increasing) simp_all
    then have "\<bar>x\<bar> < 2 ^ 1024" using b(2) by simp
    with assms show False by simp
  qed
  let ?q = "(2::real) powi (e - 52)"
  let ?n = "round_half_even (\<bar>x\<bar> / ?q)"
  have q: "0 < ?q" by simp
  have e0: "(2::real) powi e = 2 ^ 52 * ?q" using pow2_split [of e 52] by simp
  have "2 ^ 52 \<le> \<bar>x\<bar> / ?q" using b(1) q unfolding e0 by (simp add: field_simps)
  then have "(2 ^ 52 - 1 / 2 :: real) \<le> of_int ?n"
    using round_half_even_ge [of "\<bar>x\<bar> / ?q"] by linarith
  then have "(of_int (2 ^ 52 - 1) :: real) < of_int ?n" by simp
  then have "2 ^ 52 - 1 < ?n" by (simp only: of_int_less_iff)
  then have "2 ^ 52 \<le> ?n" by simp
  then have "(of_int (2 ^ 52) :: real) \<le> of_int ?n" by (simp only: of_int_le_iff)
  then have "2 ^ 52 * ?q \<le> of_int ?n * ?q" using q by simp
  then have "2 powi e \<le> of_int ?n * ?q" unfolding e0 .
  moreover have "(2::real) powi 1024 \<le> 2 powi e" using e by (intro power_int_increasing) simp_all
  ultimately have ov: "2 ^ 1024 \<le> of_int ?n * ?q" by simp
  have m: "max (ilog2 \<bar>x\<bar>) (- 1022) = e" using e unfolding e_def by simp
  show ?thesis by (simp only: round_to_double_def Let_def m x ov if_False if_True)
qed

section \<open>Properties of the tile renderer\<close>

lemma scaled_size_minus_one: "scaled_size 1 (Finite (- 1)) = Inr 1"
  by (simp add: scaled_size_def float_of_int_def py_round_def)

lemma round_to_double_5: "round_to_double 5 = Finite 5"
  by (rule round_to_double_exact [of 5 "5 * 2 ^ 50" 2]) simp_all

lemma round_to_double_25: "round_to_double 25 = Finite 25"
  by (rule round_to_double_exact [of 25 "25 * 2 ^ 48" 4]) simp_all

text \<open>
  Two more values of \<^verbatim>\<open>max(1, int(round(tile_dim * scale)))\<close>. With a tile dimension
  of 5 and the scale \<open>- 2\<^sup>1\<^sup>0\<^sup>2\<^sup>3\<close> the product is \<open>- inf\<close> and \<^verbatim>\<open>round\<close> raises
  \<^verbatim>\<open>OverflowError\<close>. With 25 and the double nearest to 0.1 the product rounds to the
  double 2.5, which \<^verbatim>\<open>round\<close> takes to 2.
\<close>

lemma scaled_size_overflow: "scaled_size 5 (Finite (- (2 ^ 1023))) = Inl OverflowError"
proof -
  have "round_to_double (5 * - (2 ^ 1023)) = NegInf"
    using round_to_double_overflow [of "5 * - (2 ^ 1023)"] by simp
  then show ?thesis
    by (simp add: scaled_size_def float_of_int_def py_round_def round_to_double_5)
qed

lemma scaled_size_tie:
  "scaled_size 25 (Finite (3602879701896397 / 2 ^ 55)) = Inr 2"
proof -
  let ?x = "25 * (3602879701896397 / 2 ^ 55) :: real"
  have lo: "2 powi 1 \<le> \<bar>?x\<bar>" by simp
  have hi: "\<bar>?x\<bar> < 2 powi (1 + 1)" by simp
  have q: "(2::real) powi (1 - 52) = 1 / 2 ^ 51" by (simp add: power_int_minus_divide)
  have "round_half_even (\<bar>?x\<bar> / (1 / 2 ^ 51)) = 5629499534213120"
    by (rule round_half_even_down) simp_all
  then have "round_to_double ?x = Finite (5 / 2)"
    using round_to_double_binade [OF lo hi] unfolding q by simp
  moreover have "round_half_even (5 / 2) = 2" by (simp add: round_half_even_def)
  ultimately show ?thesis
    by (simp add: scaled_size_def float_of_int_def py_round_def round_to_double_25)
qed

text \<open>
  C4 does not hold of the code: \<^verbatim>\<open>crop_and_scale_tile\<close> has no check of the scale. At
  scale \<open>- 1.0\<close> a 1 by 1 tile is rendered to a 1 by 1 raster (the size is clamped by
  \<^verbatim>\<open>max(1, \<dots>)\<close>) and no error is raised.
\<close>

theorem negative_scale_returns_raster:
  "\<not> isl (crop_and_scale_tile nearest red_blue 0 0 1 1 (Finite (- 1)))
   \<and> im_w (projr (crop_and_scale_tile nearest red_blue 0 0 1 1 (Finite (- 1)))) = 1
   \<and> im_h (projr (crop_and_scale_tile nearest red_blue 0 0 1 1 (Finite (- 1)))) = 1"
  by (simp add: crop_and_scale_tile_def pil_crop_def pil_resize_def Let_def scaled_size_minus_one)

section \<open>The layer compositor and the ambient generator\<close>

text \<open>
  C1 does not hold of the code. \<^verbatim>\<open>build_layered_tiles\<close> takes the tile positions from
  the module-level generator, not from the generator it is given. Two runs on the 2 by 1
  image (red, blue), one 1 by 1 tile at scale 1 on white, both with the generator state
  \<open>[5, 7]\<close>, differ when the module-level generator is in different states: the canvas is
  (red, white) in one run and (white, blue) in the other.
\<close>

theorem layered_tiles_read_ambient_generator:
  "\<not> isl (build_layered_tiles nearest [0, 0] red_blue 1 1 1 (Finite 1) (Finite 1) white [5, 7])
   \<and> \<not> isl (build_layered_tiles nearest [1, 0] red_blue 1 1 1 (Finite 1) (Finite 1) white [5, 7])
   \<and> im_px (fst (projr (build_layered_tiles nearest [0, 0] red_blue 1 1 1 (Finite 1) (Finite 1)
                          white [5, 7]))) 0 0 = red
   \<and> im_px (fst (projr (build_layered_tiles nearest [1, 0] red_blue 1 1 1 (Finite 1) (Finite 1)
                          white [5, 7]))) 0 0 = white"
  by (simp add: build_layered_tiles_def choose_random_tile_position_def ensure_positive_def
        randint_def randbelow_def next_raw_def uniform_def random_unit_def fsub_def
        crop_and_scale_tile_def scaled_size_def float_of_int_def py_round_def
        pil_crop_def pil_resize_def flatten_opaque_def pil_paste_def
        pil_new_def pil_convert_def paste_with_center_def clip_box_def shuffle_def
        in_bounds_def blend_pixel_def blend8_def alpha_def red_blue_def red_def blue_def
        white_def Let_def)

section \<open>Properties of the ease function\<close>

text \<open>
  The cosine at half of \<^verbatim>\<open>math.pi\<close>, from its Maclaurin polynomial of degree 22 and the
  remainder term: it lies strictly between \<open>2\<^sup>-\<^sup>5\<^sup>4\<close> and \<open>2\<^sup>-\<^sup>5\<^sup>3\<close>.
\<close>

lemma sum24:
  fixes f :: "nat \<Rightarrow> real"
  shows "(\<Sum>m<24. f m) = f 0 + f 1 + f 2 + f 3 + f 4 + f 5 + f 6 + f 7 + f 8 + f 9 + f 10 + f 11
           + f 12 + f 13 + f 14 + f 15 + f 16 + f 17 + f 18 + f 19 + f 20 + f 21 + f 22 + f 23"
  by (simp add: numeral_eq_Suc)

lemma cos_sum24:
  fixes x :: real
  shows "(\<Sum>m<24. cos_coeff m * x ^ m)
         = 1 - x^2 / 2 + x^4 / 24 - x^6 / 720 + x^8 / 40320 - x^10 / 3628800
           + x^12 / 479001600 - x^14 / 87178291200 + x^16 / 20922789888000
           - x^18 / 6402373705728000 + x^20 / 2432902008176640000
           - x^22 / 1124000727777607680000"
  unfolding sum24 by (simp add: cos_coeff_def fact_numeral)

lemma num_lo:
  "1 / 2 ^ 54 + 1 / 2 ^ 106 + half_pi_double ^ 24 / fact 24
     < 1 - half_pi_double^2 / 2 + half_pi_double^4 / 24 - half_pi_double^6 / 720 + half_pi_double^8 / 40320 - half_pi_double^10 / 3628800
           + half_pi_double^12 / 479001600 - half_pi_double^14 / 87178291200 + half_pi_double^16 / 20922789888000
           - half_pi_double^18 / 6402373705728000 + half_pi_double^20 / 2432902008176640000
           - half_pi_double^22 / 1124000727777607680000"
  unfolding half_pi_double_def by (simp add: power_divide fact_numeral)

lemma num_hi:
  "1 - half_pi_double^2 / 2 + half_pi_double^4 / 24 - half_pi_double^6 / 720 + half_pi_double^8 / 40320 - half_pi_double^10 / 3628800
           + half_pi_double^12 / 479001600 - half_pi_double^14 / 87178291200 + half_pi_double^16 / 20922789888000
           - half_pi_double^18 / 6402373705728000 + half_pi_double^20 / 2432902008176640000
           - half_pi_double^22 / 1124000727777607680000 + half_pi_double ^ 24 / fact 24
   < 1 / 2 ^ 53 - 1 / 2 ^ 106"
  unfolding half_pi_double_def by (simp add: power_divide fact_numeral)

lemma round_to_double_pi: "round_to_double (884279719003555 / 2 ^ 48) = Finite (884279719003555 / 2 ^ 48)"
  by (rule round_to_double_exact [of _ 7074237752028440 1]) simp_all

lemma round_to_double_half_pi: "round_to_double (884279719003555 / 2 ^ 49) = Finite (884279719003555 / 2 ^ 49)"
  by (rule round_to_double_exact [of _ 7074237752028440 0]) simp_all

lemma cos_half_pi_double_bounds: "1 / 2 ^ 54 + 1 / 2 ^ 106 < cos half_pi_double" "cos half_pi_double < 1 / 2 ^ 53 - 1 / 2 ^ 106"
proof -
  obtain t where t: "cos half_pi_double = (\<Sum>m<24. cos_coeff m * half_pi_double ^ m)
                       + (cos (t + 1 / 2 * real 24 * pi) / fact 24) * half_pi_double ^ 24"
    using Maclaurin_cos_expansion [of half_pi_double 24] by blast
  define c where "c = cos (t + 1 / 2 * real 24 * pi)"
  have c: "- 1 \<le> c" "c \<le> 1" unfolding c_def by simp_all
  have x24: "0 \<le> half_pi_double ^ 24 / fact 24" by simp
  have r: "c / fact 24 * half_pi_double ^ 24 = c * (half_pi_double ^ 24 / fact 24)" by simp
  have lo: "- (half_pi_double ^ 24 / fact 24) \<le> c / fact 24 * half_pi_double ^ 24"
    unfolding r using c(1) x24 mult_right_mono [of "- 1" c "half_pi_double ^ 24 / fact 24"] by simp
  have hi: "c / fact 24 * half_pi_double ^ 24 \<le> half_pi_double ^ 24 / fact 24"
    unfolding r using c(2) x24 mult_right_mono [of c 1 "half_pi_double ^ 24 / fact 24"] by simp
  have eq: "cos half_pi_double = (\<Sum>m<24. cos_coeff m * half_pi_double ^ m) + c / fact 24 * half_pi_double ^ 24"
    using t unfolding c_def .
  show "1 / 2 ^ 54 + 1 / 2 ^ 106 < cos half_pi_double"
    using num_lo lo unfolding eq cos_sum24 by linarith
  show "cos half_pi_double < 1 / 2 ^ 53 - 1 / 2 ^ 106"
    using num_hi hi unfolding eq cos_sum24 by linarith
qed

lemma math_cos_half_pi:
  obtains c where "math_cos (Finite (884279719003555 / 2 ^ 49)) = Inr (Finite c)"
    "1 / 2 ^ 54 < c" "c < 1 / 2 ^ 53"
proof -
  define c0 where "c0 = cos half_pi_double"
  have b: "1 / 2 ^ 54 + 1 / 2 ^ 106 < c0" "c0 < 1 / 2 ^ 53 - 1 / 2 ^ 106"
    unfolding c0_def by (rule cos_half_pi_double_bounds)+
  have pos: "0 < c0" using b(1) by (simp add: add_pos_pos less_trans [rotated])
  have abs: "\<bar>c0\<bar> = c0" using pos by simp
  have p54: "(2::real) powi (- 54) = 1 / 2 ^ 54" by (simp add: power_int_minus_divide)
  have p53: "(2::real) powi (- 54 + 1) = 1 / 2 ^ 53" by (simp add: power_int_minus_divide)
  have p106: "(2::real) powi (- 54 - 52) = 1 / 2 ^ 106" by (simp add: power_int_minus_divide)
  have lo: "2 powi (- 54) \<le> \<bar>c0\<bar>" unfolding abs p54 using b(1) by simp
  have hi: "\<bar>c0\<bar> < 2 powi (- 54 + 1)" unfolding abs p53 using b(2) by simp
  define n where "n = round_half_even (c0 / (1 / 2 ^ 106))"
  have r: "round_to_double c0 = Finite (sgn c0 * (of_int n * (1 / 2 ^ 106)))"
    using round_to_double_binade [OF lo hi] unfolding abs p106 n_def by simp
  have y: "c0 / (1 / 2 ^ 106) = c0 * 2 ^ 106" by simp
  have ylo: "2 ^ 52 + 1 < c0 * 2 ^ 106"
  proof -
    have "(1 / 2 ^ 54 + 1 / 2 ^ 106) * 2 ^ 106 < c0 * 2 ^ 106"
      using b(1) by (simp only: mult_less_cancel_right_pos zero_less_power zero_less_numeral)
    then show ?thesis by simp
  qed
  have yhi: "c0 * 2 ^ 106 < 2 ^ 53 - 1"
  proof -
    have "c0 * 2 ^ 106 < (1 / 2 ^ 53 - 1 / 2 ^ 106) * 2 ^ 106"
      using b(2) by (simp only: mult_less_cancel_right_pos zero_less_power zero_less_numeral)
    then show ?thesis by simp
  qed
  have nlo: "2 ^ 52 + 1 / 2 < (of_int n :: real)"
    using round_half_even_ge [of "c0 * 2 ^ 106"] ylo unfolding n_def y by linarith
  have nhi: "(of_int n :: real) < 2 ^ 53 - 1 / 2"
    using round_half_even_le [of "c0 * 2 ^ 106"] yhi unfolding n_def y by linarith
  define c where "c = of_int n * (1 / 2 ^ 106 :: real)"
  have "(2 ^ 52 + 1 / 2) * (1 / 2 ^ 106) < c" unfolding c_def using nlo by simp
  then have c1: "1 / 2 ^ 54 < c" by simp
  have "c < (2 ^ 53 - 1 / 2) * (1 / 2 ^ 106)" unfolding c_def using nhi by simp
  then have c2: "c < 1 / 2 ^ 53" by simp
  have "math_cos (Finite (884279719003555 / 2 ^ 49)) = Inr (Finite c)"
    using r pos unfolding c_def c0_def half_pi_double_def by (simp add: math_cos_def)
  then show thesis using c1 c2 that by blast
qed

lemma one_minus_tiny:
  assumes "1 / 2 ^ 54 < c" "c < 1 / 2 ^ 53"
  shows "round_to_double (1 - c) = Finite (1 - 1 / 2 ^ 53)"
proof -
  have pos: "0 < 1 - c" using assms(2) by simp
  have abs: "\<bar>1 - c\<bar> = 1 - c" using pos by simp
  have p1: "(2::real) powi (- 1) = 1 / 2" by simp
  have p0: "(2::real) powi (- 1 + 1) = 1" by simp
  have p53: "(2::real) powi (- 1 - 52) = 1 / 2 ^ 53" by (simp add: power_int_minus_divide)
  have lo: "2 powi (- 1) \<le> \<bar>1 - c\<bar>" unfolding abs p1 using assms(2) by simp
  have hi: "\<bar>1 - c\<bar> < 2 powi (- 1 + 1)" unfolding abs p0 using assms(1) by simp
  have r: "round_to_double (1 - c)
             = Finite (sgn (1 - c) * (of_int (round_half_even ((1 - c) / (1 / 2 ^ 53))) * (1 / 2 ^ 53)))"
    using round_to_double_binade [OF lo hi] unfolding abs p53 by simp
  have y: "(1 - c) / (1 / 2 ^ 53) = 2 ^ 53 - c * 2 ^ 53" by (simp add: algebra_simps)
  have c1: "1 / 2 < c * 2 ^ 53"
  proof -
    have "1 / 2 ^ 54 * 2 ^ 53 < c * 2 ^ 53"
      using assms(1) by (simp only: mult_less_cancel_right_pos zero_less_power zero_less_numeral)
    then show ?thesis by simp
  qed
  have c2: "c * 2 ^ 53 < 1"
  proof -
    have "c * 2 ^ 53 < 1 / 2 ^ 53 * 2 ^ 53"
      using assms(2) by (simp only: mult_less_cancel_right_pos zero_less_power zero_less_numeral)
    then show ?thesis by simp
  qed
  have "round_half_even (2 ^ 53 - c * 2 ^ 53) = 2 ^ 53 - 1"
    by (rule round_half_even_down) (use c1 c2 in simp_all)
  then show ?thesis unfolding r y using pos by simp
qed

lemma ease_half: "ease_smooth_sine (Finite (1 / 2)) = Inr (Finite (1 / 2 - 1 / 2 ^ 54))"
proof -
  have a: "fmul math_pi (Finite (1 / 2)) = Finite (884279719003555 / 2 ^ 49)"
    using round_to_double_half_pi by (simp add: math_pi_def)
  obtain c where c: "math_cos (Finite (884279719003555 / 2 ^ 49)) = Inr (Finite c)"
    "1 / 2 ^ 54 < c" "c < 1 / 2 ^ 53"
    by (rule math_cos_half_pi)
  have s: "fsub (Finite 1) (Finite c) = Finite (1 - 1 / 2 ^ 53)"
    using one_minus_tiny [OF c(2,3)] by (simp add: fsub_def)
  have "round_to_double (1 / 2 - 1 / 2 ^ 54) = Finite (1 / 2 - 1 / 2 ^ 54)"
    by (rule round_to_double_exact [of _ "2 ^ 53 - 1" "- 2"]) (simp_all add: power_int_minus_divide)
  moreover have "1 / 2 * (1 - 1 / 2 ^ 53) = (1 / 2 - 1 / 2 ^ 54 :: real)" by simp
  ultimately have m: "fmul (Finite (1 / 2)) (Finite (1 - 1 / 2 ^ 53)) = Finite (1 / 2 - 1 / 2 ^ 54)"
    by (simp only: fmul.simps)
  show ?thesis by (simp only: ease_smooth_sine_def a c(1) sum.case s m)
qed

lemma math_cos_pi: "math_cos (Finite (884279719003555 / 2 ^ 48)) = Inr (Finite (- 1))"
proof -
  define c0 where "c0 = cos half_pi_double"
  have b: "0 < c0" "c0 < 1 / 2 ^ 53"
  proof -
    have "1 / 2 ^ 54 + 1 / 2 ^ 106 < c0" "c0 < 1 / 2 ^ 53 - 1 / 2 ^ 106"
      unfolding c0_def by (rule cos_half_pi_double_bounds)+
    then show "0 < c0" "c0 < 1 / 2 ^ 53" by (simp_all add: add_pos_pos less_trans [rotated])
  qed
  have sq: "c0\<^sup>2 < 1 / 2 ^ 106"
  proof -
    have "c0 * c0 < (1 / 2 ^ 53) * (1 / 2 ^ 53)"
      using b by (intro mult_strict_mono) simp_all
    then show ?thesis by (simp add: power2_eq_square)
  qed
  have sq0: "0 < c0\<^sup>2" using b(1) by simp
  define x :: real where "x = cos (884279719003555 / 2 ^ 48)"
  have "(884279719003555 / 2 ^ 48 :: real) = 2 * half_pi_double" unfolding half_pi_double_def by simp
  then have x: "x = 2 * c0\<^sup>2 - 1" unfolding x_def c0_def by (simp only: cos_double_cos)
  have neg: "x < 0" unfolding x using sq by simp
  have abs: "\<bar>x\<bar> = 1 - 2 * c0\<^sup>2" using neg unfolding x by simp
  have p1: "(2::real) powi (- 1) = 1 / 2" by simp
  have p0: "(2::real) powi (- 1 + 1) = 1" by simp
  have p53: "(2::real) powi (- 1 - 52) = 1 / 2 ^ 53" by (simp add: power_int_minus_divide)
  have lo: "2 powi (- 1) \<le> \<bar>x\<bar>" unfolding abs p1 using sq by simp
  have hi: "\<bar>x\<bar> < 2 powi (- 1 + 1)" unfolding abs p0 using sq0 by simp
  have r: "round_to_double x
             = Finite (sgn x * (of_int (round_half_even ((1 - 2 * c0\<^sup>2) / (1 / 2 ^ 53))) * (1 / 2 ^ 53)))"
    using round_to_double_binade [OF lo hi] unfolding abs p53 by simp
  have y: "(1 - 2 * c0\<^sup>2) / (1 / 2 ^ 53) = 2 ^ 53 - c0\<^sup>2 * 2 ^ 54" by (simp add: algebra_simps)
  have t: "c0\<^sup>2 * 2 ^ 54 < 1 / 2"
  proof -
    have "c0\<^sup>2 * 2 ^ 54 < 1 / 2 ^ 106 * 2 ^ 54"
      using sq by (simp only: mult_less_cancel_right_pos zero_less_power zero_less_numeral)
    also have "\<dots> < (1 / 2 :: real)" by simp
    finally show ?thesis .
  qed
  have t0: "0 < c0\<^sup>2 * 2 ^ 54" using sq0 by simp
  have "round_half_even (2 ^ 53 - c0\<^sup>2 * 2 ^ 54) = (2 ^ 53 - 1) + 1"
    by (rule round_half_even_up) (use t t0 in simp_all)
  then have "round_to_double x = Finite (- 1)" unfolding r y using neg by simp
  then show ?thesis unfolding x_def by (simp add: math_cos_def)
qed

lemma ease_1: "ease_smooth_sine (Finite 1) = Inr (Finite 1)"
proof -
  have a: "fmul math_pi (Finite 1) = Finite (884279719003555 / 2 ^ 48)"
    using round_to_double_pi by (simp add: math_pi_def)
  have s: "fsub (Finite 1) (Finite (- 1)) = Finite 2" by (simp add: fsub_def)
  have m: "fmul (Finite (1 / 2)) (Finite 2) = Finite 1" by simp
  show ?thesis by (simp only: ease_smooth_sine_def a math_cos_pi sum.case s m)
qed

lemma ease_0: "ease_smooth_sine (Finite 0) = Inr (Finite 0)"
  by (simp add: ease_smooth_sine_def math_pi_def math_cos_def fsub_def)

text \<open>
  C8, as stated, fails in double arithmetic at \<open>t = 0.5\<close>: \<^verbatim>\<open>math.pi * 0.5\<close> is not
  \<open>\<pi> / 2\<close>, its cosine is a double near \<open>6.1 \<times> 10\<^sup>-\<^sup>1\<^sup>7\<close>, and the result is below 0.5.
\<close>

theorem ease_half_is_not_half:
  "ease_smooth_sine (Finite (1 / 2)) \<noteq> Inr (Finite (1 / 2))"
  by (simp add: ease_half)

text \<open>
  C8, amended. In double arithmetic \<open>ease(0) = 0\<close> and \<open>ease(1) = 1\<close> exactly, and
  \<open>ease(0.5) = 0.5 - 2\<^sup>-\<^sup>5\<^sup>4\<close> (the double 0.49999999999999994); the value 0.5 at
  \<open>t = 0.5\<close> is that of the formula over the real numbers.
\<close>

theorem ease_boundary_doubles:
  "ease_smooth_sine (Finite 0) = Inr (Finite 0)
   \<and> ease_smooth_sine (Finite 1) = Inr (Finite 1)
   \<and> ease_smooth_sine (Finite (1 / 2)) = Inr (Finite (1 / 2 - 1 / 2 ^ 54))
   \<and> 1 / 2 * (1 - cos (pi * (1 / 2))) = (1 / 2 :: real)"
  by (simp add: ease_0 ease_1 ease_half)

end
